theory Spec2Isabelle
  imports Main "HOL-Library.Char_ord" "HOL-Library.List_Lexorder" "HOL-Library.Multiset"
begin

section \<open>pagetags/templatetags/page\_tags.py\<close>

text \<open>
  The template library of django-cms-pagetags: three directives
  (\<^verbatim>\<open>tags_of_pages_with_tags\<close>, \<^verbatim>\<open>pages_with_tags\<close>,
  \<^verbatim>\<open>pages_similar_with\<close>), each compiled from the text of its token by a regular
  expression and rendered against a render context and the database.

  Text is a \<^typ>\<open>string\<close>: a list of characters with code points below 256.
  Python names that begin with an underscore lose it (\<^verbatim>\<open>_extract_tag_content\<close> is
  \<open>extract_tag_content\<close>).
\<close>

subsection \<open>Errors\<close>

text \<open>
  Every exception the module can raise or let through is a value.
  \<open>Page_DoesNotExist\<close> is the only one a method of the module catches.
\<close>

datatype error =
    TemplateSyntaxError
  | IndexError
  | KeyError
  | TypeError
  | ValueError
  | Page_DoesNotExist
  | MultipleObjectsReturned
  | PageTagging_DoesNotExist

subsection \<open>The regular expressions of the module\<close>

text \<open>
  The patterns are compiled with \<^verbatim>\<open>re.VERBOSE\<close> and no other flag: white space and
  comments of the pattern text are dropped, \<^verbatim>\<open>.\<close> is any character but the
  newline, and \<^verbatim>\<open>\s\<close>, \<^verbatim>\<open>\d\<close>, \<^verbatim>\<open>\w\<close> are the ASCII classes.
\<close>

datatype cclass = Dot | Space | Digit | Word

definition re_space :: "char \<Rightarrow> bool" where
  "re_space c = (c \<in> {CHR '' '', CHR 0x09, CHR 0x0A, CHR 0x0B, CHR 0x0C, CHR 0x0D})"

definition re_digit :: "char \<Rightarrow> bool" where
  "re_digit c = (c \<in> set ''0123456789'')"

definition re_word :: "char \<Rightarrow> bool" where
  "re_word c = (c \<in> set ''abcdefghijklmnopqrstuvwxyzABCDEFGHIJKLMNOPQRSTUVWXYZ0123456789_'')"

fun cls_ok :: "cclass \<Rightarrow> char \<Rightarrow> bool" where
  "cls_ok Dot c = (c \<noteq> CHR 0x0A)"
| "cls_ok Space c = re_space c"
| "cls_ok Digit c = re_digit c"
| "cls_ok Word c = re_word c"

datatype regex =
    Lit string
  | Cls cclass
  | Seq regex regex
  | Alt regex regex
  | Star regex
  | LazyStar regex
  | Group nat regex

text \<open>\<^verbatim>\<open>r+\<close> is \<^verbatim>\<open>rr*\<close>, also for the order in which a backtracking matcher tries.\<close>

definition Plus :: "regex \<Rightarrow> regex" where
  "Plus r = Seq r (Star r)"

text \<open>
  A state of the matcher is the text still to read and the groups captured so far.
  \<open>matches r st\<close> lists every way \<open>r\<close> can match at the head of the text, in
  the order a backtracking matcher tries them: a greedy star tries one more iteration
  before it stops, a lazy star stops before it tries one more, an alternative tries its
  left branch first. A group that is matched again overwrites its capture. An iteration
  of a star has to read at least one character, so a star iterates at most as often as
  there are characters left.
\<close>

type_synonym groups = "nat \<rightharpoonup> string"
type_synonym mstate = "string \<times> groups"

primrec star_greedy :: "(mstate \<Rightarrow> mstate list) \<Rightarrow> nat \<Rightarrow> mstate \<Rightarrow> mstate list" where
  "star_greedy m 0 st = [st]"
| "star_greedy m (Suc n) st =
     concat (map (\<lambda>st'. if length (fst st') < length (fst st) then star_greedy m n st' else [])
                 (m st)) @ [st]"

primrec star_lazy :: "(mstate \<Rightarrow> mstate list) \<Rightarrow> nat \<Rightarrow> mstate \<Rightarrow> mstate list" where
  "star_lazy m 0 st = [st]"
| "star_lazy m (Suc n) st =
     st # concat (map (\<lambda>st'. if length (fst st') < length (fst st) then star_lazy m n st' else [])
                      (m st))"

definition starts_with :: "string \<Rightarrow> string \<Rightarrow> bool" where
  "starts_with w s = (take (length w) s = w)"

primrec matches :: "regex \<Rightarrow> mstate \<Rightarrow> mstate list" where
  "matches (Lit w) st =
     (if starts_with w (fst st) then [(drop (length w) (fst st), snd st)] else [])"
| "matches (Cls k) st =
     (case fst st of [] \<Rightarrow> [] | c # cs \<Rightarrow> if cls_ok k c then [(cs, snd st)] else [])"
| "matches (Seq a b) st = concat (map (matches b) (matches a st))"
| "matches (Alt a b) st = matches a st @ matches b st"
| "matches (Star a) st = star_greedy (matches a) (length (fst st)) st"
| "matches (LazyStar a) st = star_lazy (matches a) (length (fst st)) st"
| "matches (Group i a) st =
     map (\<lambda>st'. (fst st', (snd st')(i \<mapsto> take (length (fst st) - length (fst st')) (fst st))))
         (matches a st)"

text \<open>
  \<^verbatim>\<open>re.search\<close>: the first position of the text, from the left, at which the pattern
  matches, and there the first way the matcher finds. The result is the captured groups
  (\<^verbatim>\<open>m.groups()\<close>; a group that took no part is \<open>None\<close>), or \<open>None\<close> for no match.
\<close>

fun re_search :: "regex \<Rightarrow> string \<Rightarrow> groups option" where
  "re_search r s =
     (case matches r (s, Map.empty) of
        st # _ \<Rightarrow> Some (snd st)
      | [] \<Rightarrow> (case s of [] \<Rightarrow> None | _ # t \<Rightarrow> re_search r t))"

text \<open>The three patterns, as the source writes them.\<close>

fun seqs :: "regex list \<Rightarrow> regex" where
  "seqs [] = Lit []"
| "seqs [r] = r"
| "seqs (r # rs) = Seq r (seqs rs)"

definition order_clause :: regex where
  \<comment> \<open>\<^verbatim>\<open>(\s+ order \s+(alphabetical|chronological))\<close>, groups 2 and 3\<close>
  "order_clause =
     Group 2 (seqs [Plus (Cls Space), Lit ''order'', Plus (Cls Space),
                    Group 3 (Alt (Lit ''alphabetical'') (Lit ''chronological''))])"

definition limit_clause :: "nat \<Rightarrow> nat \<Rightarrow> regex" where
  \<comment> \<open>\<^verbatim>\<open>(\s+ limit \s+ (\d+))\<close>, groups \<open>i\<close> and \<open>j\<close>\<close>
  "limit_clause i j =
     Group i (seqs [Plus (Cls Space), Lit ''limit'', Plus (Cls Space),
                    Group j (Plus (Cls Digit))])"

definition as_clause :: "nat \<Rightarrow> regex list" where
  \<comment> \<open>\<^verbatim>\<open>\s+ as \s+ (\w+) \s*\<close>, the collector variable in group \<open>n\<close>\<close>
  "as_clause n =
     [Plus (Cls Space), Lit ''as'', Plus (Cls Space), Group n (Plus (Cls Word)),
      Star (Cls Space)]"

definition tags_of_pages_with_tags_re :: regex where
  \<comment> \<open>\<^verbatim>\<open>(.*?) \s+ as \s+ (\w+) \s*\<close>\<close>
  "tags_of_pages_with_tags_re = seqs (Group 1 (LazyStar (Cls Dot)) # as_clause 2)"

definition pages_with_tags_re :: regex where
  \<comment> \<open>\<^verbatim>\<open>(.*?) (\s+ order \s+(alphabetical|chronological))* (\s+ limit \s+ (\d+))* \s+ as \s+ (\w+) \s*\<close>\<close>
  "pages_with_tags_re =
     seqs (Group 1 (LazyStar (Cls Dot)) # Star order_clause # Star (limit_clause 4 5)
           # as_clause 6)"

definition pages_similar_with_re :: regex where
  \<comment> \<open>\<^verbatim>\<open>(.*?) (\s+ limit \s+ (\d+))* \s+ as \s+ (\w+) \s*\<close>\<close>
  "pages_similar_with_re =
     seqs (Group 1 (LazyStar (Cls Dot)) # Star (limit_clause 2 3) # as_clause 4)"

text \<open>
  The lazy capture \<^verbatim>\<open>(.*?)\<close> followed by the rest \<open>R\<close> of a pattern, written
  position by position: the rest is tried where the capture stands, and the capture
  takes one more character, unless that is a newline, when the rest fails. This is
  \<open>matches\<close> of \<open>Seq (Group i (LazyStar (Cls Dot))) R\<close> (lemma \<open>lazy_capture\<close>
  below); the proofs about the parsers use this form.
\<close>

fun lazy_search :: "nat \<Rightarrow> regex \<Rightarrow> string \<Rightarrow> string \<Rightarrow> groups \<Rightarrow> mstate list" where
  "lazy_search i R pre [] g = matches R ([], g(i \<mapsto> pre))"
| "lazy_search i R pre (c # s) g =
     matches R (c # s, g(i \<mapsto> pre))
     @ (if c \<noteq> CHR 0x0A then lazy_search i R (pre @ [c]) s g else [])"

subsection \<open>The argument lexer\<close>

text \<open>
  \<^verbatim>\<open>token.contents.split(None, 1)\<close> on a unicode string: the first word and, when
  anything but white space follows it, the rest of the text from its first character
  that is not white space. White space is what \<^verbatim>\<open>unicode.isspace\<close> accepts.
\<close>

definition py_isspace :: "char \<Rightarrow> bool" where
  "py_isspace c =
     (c \<in> {CHR '' '', CHR 0x09, CHR 0x0A, CHR 0x0B, CHR 0x0C, CHR 0x0D,
            CHR 0x1C, CHR 0x1D, CHR 0x1E, CHR 0x1F, CHR 0x85, CHR 0xA0})"

definition split_None_1 :: "string \<Rightarrow> string list" where
  "split_None_1 s =
     (let s1 = dropWhile py_isspace s in
      if s1 = [] then []
      else let w = takeWhile (\<lambda>c. \<not> py_isspace c) s1;
               r = dropWhile py_isspace (dropWhile (\<lambda>c. \<not> py_isspace c) s1)
           in if r = [] then [w] else [w, r])"

text \<open>
  Unpacking anything but two parts raises \<^verbatim>\<open>ValueError\<close>, which the function turns
  into a syntax error; building that error's message reads the first word of the text,
  which raises \<^verbatim>\<open>IndexError\<close> when the text has no word at all.
\<close>

definition extract_tag_content :: "string \<Rightarrow> error + (string \<times> string)" where
  "extract_tag_content contents =
     (case split_None_1 contents of
        [tag_name, arg] \<Rightarrow> Inr (tag_name, arg)
      | [] \<Rightarrow> Inl IndexError
      | _ \<Rightarrow> Inl TemplateSyntaxError)"

subsection \<open>What lies outside the module\<close>

text \<open>
  A value of the render context is a text, the set of tags or the list of pages a
  directive has written, or anything else the template was given.
\<close>

record page =
  page_id :: nat
  page_site :: nat
  title :: string
  slug :: string
  publication_date :: int

datatype pyval = VStr string | VTags "string set" | VPages "page list"

type_synonym render_context = "string \<rightharpoonup> pyval"

text \<open>
  The functions of other packages that the module calls and that no claim depends on
  the inside of are parameters: \<^verbatim>\<open>settings.SITE_ID\<close>,
  \<^verbatim>\<open>tagging.utils.parse_tag_input\<close>, \<^verbatim>\<open>shlex.split\<close> (which raises on an
  unbalanced quote) and \<^verbatim>\<open>TaggedItem.objects.get_related\<close>.
\<close>

record pagetagging =
  pt_page :: page
  page_tags :: string
  tag_names :: "string list"

record externals =
  SITE_ID :: nat
  parse_tag_input :: "pyval \<Rightarrow> string list"
  shlex_split :: "string \<Rightarrow> error + string list"
  get_related :: "pagetagging \<Rightarrow> pagetagging list \<Rightarrow> pagetagging list"

subsection \<open>Value binders\<close>

text \<open>
  \<open>StaticTags\<close> and \<open>DynamicTags\<close> are lists: the binder is the list of tags it
  holds, and a \<open>DynamicTags\<close> also has the name of its variable. A \<open>DynamicSlug\<close>
  holds the value it read last, \<^verbatim>\<open>u''\<close> at first.
\<close>

datatype tags_binder = StaticTags "string list" | DynamicTags string "string list"

datatype slug_binder = StaticSlug string | DynamicSlug string pyval

definition StaticTags_init :: "externals \<Rightarrow> string \<Rightarrow> tags_binder" where
  "StaticTags_init ext tags = StaticTags (parse_tag_input ext (VStr tags))"

definition DynamicTags_init :: "string \<Rightarrow> tags_binder" where
  "DynamicTags_init varname = DynamicTags varname []"

definition DynamicSlug_init :: "string \<Rightarrow> slug_binder" where
  "DynamicSlug_init varname = DynamicSlug varname (VStr [])"

text \<open>\<^verbatim>\<open>context.get(name, '')\<close> and \<^verbatim>\<open>context[name]\<close>.\<close>

definition context_get :: "render_context \<Rightarrow> string \<Rightarrow> pyval \<Rightarrow> pyval" where
  "context_get ctx name otherwise = (case ctx name of None \<Rightarrow> otherwise | Some v \<Rightarrow> v)"

definition context_getitem :: "render_context \<Rightarrow> string \<Rightarrow> error + pyval" where
  "context_getitem ctx name = (case ctx name of None \<Rightarrow> Inl KeyError | Some v \<Rightarrow> Inr v)"

fun tags_bind :: "externals \<Rightarrow> tags_binder \<Rightarrow> render_context \<Rightarrow> tags_binder" where
  "tags_bind ext (StaticTags ts) ctx = StaticTags ts"
| "tags_bind ext (DynamicTags varname ts) ctx =
     DynamicTags varname (parse_tag_input ext (context_get ctx varname (VStr [])))"

fun slug_bind :: "slug_binder \<Rightarrow> render_context \<Rightarrow> error + slug_binder" where
  "slug_bind (StaticSlug s) ctx = Inr (StaticSlug s)"
| "slug_bind (DynamicSlug varname v) ctx =
     (case context_getitem ctx varname of
        Inl e \<Rightarrow> Inl e
      | Inr v' \<Rightarrow> Inr (DynamicSlug varname v'))"

text \<open>The list a tags binder is, and the value a slug binder stands for in a query.\<close>

fun tags_of :: "tags_binder \<Rightarrow> string list" where
  "tags_of (StaticTags ts) = ts"
| "tags_of (DynamicTags varname ts) = ts"

fun slug_of :: "slug_binder \<Rightarrow> pyval" where
  "slug_of (StaticSlug s) = VStr s"
| "slug_of (DynamicSlug varname v) = v"

subsection \<open>The clause parsers\<close>

text \<open>
  \<^verbatim>\<open>s[0] == s[-1] and s[0] in ('"', "'")\<close>; indexing the empty text raises.
  \<^verbatim>\<open>s[1:-1]\<close> drops the first and the last character.
\<close>

definition quoted :: "string \<Rightarrow> bool" where
  "quoted s = (hd s = last s \<and> hd s \<in> {CHR 0x22, CHR 0x27})"

definition strip_quotes :: "string \<Rightarrow> string" where
  "strip_quotes s = butlast (tl s)"

definition parsed_tags :: "externals \<Rightarrow> string \<Rightarrow> error + tags_binder" where
  "parsed_tags ext quoted_or_var =
     (if quoted_or_var = [] then Inl IndexError
      else if quoted quoted_or_var then Inr (StaticTags_init ext (strip_quotes quoted_or_var))
      else Inr (DynamicTags_init quoted_or_var))"

definition parse_slug :: "string \<Rightarrow> error + slug_binder" where
  "parse_slug quoted_or_var =
     (if quoted_or_var = [] then Inl IndexError
      else if quoted quoted_or_var then Inr (StaticSlug (strip_quotes quoted_or_var))
      else Inr (DynamicSlug_init quoted_or_var))"

text \<open>
  \<^verbatim>\<open>int(limit)\<close> on a text of decimal digits, and \<^verbatim>\<open>limit and int(limit)\<close>: an
  absent group stays \<open>None\<close>. (The empty text would stay as it is; a match of
  \<^verbatim>\<open>\d+\<close> is never empty.)
\<close>

definition digit_val :: "char \<Rightarrow> nat" where
  "digit_val c = of_char c - 48"

definition int_of_digits :: "string \<Rightarrow> nat" where
  "int_of_digits s = foldl (\<lambda>n c. 10 * n + digit_val c) 0 s"

definition limit_and_int :: "string option \<Rightarrow> nat option" where
  "limit_and_int limit =
     (case limit of None \<Rightarrow> None | Some l \<Rightarrow> if l = [] then None else Some (int_of_digits l))"

text \<open>
  Each parser splits the token, searches its pattern in the argument text and reads the
  groups of the match. The text and the variable groups take part in every match; were
  one of them \<open>None\<close>, using it as a text would raise \<^verbatim>\<open>TypeError\<close>.
\<close>

definition parse_tags_of_pages_with_tags ::
  "externals \<Rightarrow> string \<Rightarrow> error + (tags_binder \<times> string)" where
  "parse_tags_of_pages_with_tags ext contents =
     (case extract_tag_content contents of
        Inl e \<Rightarrow> Inl e
      | Inr (tag_name, arg) \<Rightarrow>
          (case re_search tags_of_pages_with_tags_re arg of
             None \<Rightarrow> Inl TemplateSyntaxError
           | Some g \<Rightarrow>
               (case (g 1, g 2) of
                  (Some tags, Some var_name) \<Rightarrow>
                    (case parsed_tags ext tags of
                       Inl e \<Rightarrow> Inl e
                     | Inr pt \<Rightarrow> Inr (pt, var_name))
                | _ \<Rightarrow> Inl TypeError)))"

definition parse_pages_with_tags ::
  "externals \<Rightarrow> string \<Rightarrow> error + (tags_binder \<times> string option \<times> nat option \<times> string)" where
  "parse_pages_with_tags ext contents =
     (case extract_tag_content contents of
        Inl e \<Rightarrow> Inl e
      | Inr (tag_name, arg) \<Rightarrow>
          (case re_search pages_with_tags_re arg of
             None \<Rightarrow> Inl TemplateSyntaxError
           | Some g \<Rightarrow>
               (case (g 1, g 6) of
                  (Some tags, Some var_name) \<Rightarrow>
                    (case parsed_tags ext tags of
                       Inl e \<Rightarrow> Inl e
                     | Inr pt \<Rightarrow> Inr (pt, g 3, limit_and_int (g 5), var_name))
                | _ \<Rightarrow> Inl TypeError)))"

definition parse_pages_similar_with ::
  "string \<Rightarrow> error + (slug_binder \<times> nat option \<times> string)" where
  "parse_pages_similar_with contents =
     (case extract_tag_content contents of
        Inl e \<Rightarrow> Inl e
      | Inr (tag_name, arg) \<Rightarrow>
          (case re_search pages_similar_with_re arg of
             None \<Rightarrow> Inl TemplateSyntaxError
           | Some g \<Rightarrow>
               (case (g 1, g 4) of
                  (Some page_slug, Some var_name) \<Rightarrow>
                    (case parse_slug page_slug of
                       Inl e \<Rightarrow> Inl e
                     | Inr ps \<Rightarrow> Inr (ps, limit_and_int (g 3), var_name))
                | _ \<Rightarrow> Inl TypeError)))"

subsection \<open>Directive nodes\<close>

record TagsOfTaggedPagesNode =
  tn_parsed_tags :: tags_binder
  tn_var_name :: string

record TaggedPagesNode =
  pn_parsed_tags :: tags_binder
  pn_ordering :: string
  pn_limit :: "nat option"
  pn_var_name :: string

record SimilarPagesNode =
  sn_parsed_slug :: slug_binder
  sn_limit :: "nat option"
  sn_var_name :: string

text \<open>\<^verbatim>\<open>self.ordering = ordering or 'chronological'\<close>\<close>

definition TaggedPagesNode_init ::
  "tags_binder \<Rightarrow> string option \<Rightarrow> nat option \<Rightarrow> string \<Rightarrow> TaggedPagesNode" where
  "TaggedPagesNode_init pt ord lim var_name =
     \<lparr>pn_parsed_tags = pt,
      pn_ordering = (case ord of
                       None \<Rightarrow> ''chronological''
                     | Some x \<Rightarrow> if x = [] then ''chronological'' else x),
      pn_limit = lim,
      pn_var_name = var_name\<rparr>"

text \<open>The functions registered with the template library: a token's text to its node.\<close>

definition tags_of_pages_with_tags :: "externals \<Rightarrow> string \<Rightarrow> error + TagsOfTaggedPagesNode" where
  "tags_of_pages_with_tags ext contents =
     (case parse_tags_of_pages_with_tags ext contents of
        Inl e \<Rightarrow> Inl e
      | Inr (pt, var_name) \<Rightarrow> Inr \<lparr>tn_parsed_tags = pt, tn_var_name = var_name\<rparr>)"

definition pages_with_tags :: "externals \<Rightarrow> string \<Rightarrow> error + TaggedPagesNode" where
  "pages_with_tags ext contents =
     (case parse_pages_with_tags ext contents of
        Inl e \<Rightarrow> Inl e
      | Inr (pt, ord, lim, var_name) \<Rightarrow> Inr (TaggedPagesNode_init pt ord lim var_name))"

definition pages_similar_with :: "string \<Rightarrow> error + SimilarPagesNode" where
  "pages_similar_with contents =
     (case parse_pages_similar_with contents of
        Inl e \<Rightarrow> Inl e
      | Inr (ps, lim, var_name) \<Rightarrow>
          Inr \<lparr>sn_parsed_slug = ps, sn_limit = lim, sn_var_name = var_name\<rparr>)"

subsection \<open>The query layer\<close>

text \<open>
  The database holds the pages and the tag associations (\<^verbatim>\<open>PageTagging\<close>), each
  association with its page, its cached tag text and the names of the tags the tagging
  layer has attached to it.
\<close>

record database =
  db_pages :: "page list"
  db_pagetaggings :: "pagetagging list"

definition pagetaggings_from_site :: "externals \<Rightarrow> database \<Rightarrow> pagetagging list" where
  \<comment> \<open>Modelled from the spec: the object-relational mapper is not under src/. "queries
      all tag-associations scoped to the deployment's site identifier, joined to their
      parent pages" (\<^verbatim>\<open>PageTagging.objects.filter(page__site=settings.SITE_ID)\<close>).\<close>
  "pagetaggings_from_site ext db =
     filter (\<lambda>pt. page_site (pt_page pt) = SITE_ID ext) (db_pagetaggings db)"

definition order_by_title :: "pagetagging list \<Rightarrow> pagetagging list" where
  \<comment> \<open>Modelled from the spec: the object-relational mapper is not under src/.
      "alphabetical sorts by the page's title field"
      (\<^verbatim>\<open>order_by('page__title_set__title')\<close>).\<close>
  "order_by_title qs = sort_key (\<lambda>pt. title (pt_page pt)) qs"

definition order_by_publication_date_desc :: "pagetagging list \<Rightarrow> pagetagging list" where
  \<comment> \<open>Modelled from the spec: the object-relational mapper is not under src/.
      "chronological (default) sorts by publication date descending"
      (\<^verbatim>\<open>order_by('-page__publication_date')\<close>).\<close>
  "order_by_publication_date_desc qs = sort_key (\<lambda>pt. - publication_date (pt_page pt)) qs"

definition get_by_model :: "pagetagging list \<Rightarrow> string list \<Rightarrow> pagetagging list" where
  \<comment> \<open>Modelled from the spec: the tagging layer is not under src/. "filters to
      associations matching ANY of the bound tags" (\<^verbatim>\<open>TaggedItem.objects.get_by_model\<close>);
      the order of the query set is kept.\<close>
  "get_by_model qs tags = filter (\<lambda>pt. \<exists>t \<in> set tags. t \<in> set (tag_names pt)) qs"

definition slice_to :: "'a list \<Rightarrow> nat option \<Rightarrow> 'a list" where
  \<comment> \<open>\<^verbatim>\<open>qs[:limit]\<close>; \<^verbatim>\<open>qs[:None]\<close> is all of \<open>qs\<close>\<close>
  "slice_to qs lim = (case lim of None \<Rightarrow> qs | Some n \<Rightarrow> take n qs)"

definition Page_objects_get :: "externals \<Rightarrow> database \<Rightarrow> pyval \<Rightarrow> error + page" where
  \<comment> \<open>Modelled from the spec: the object-relational mapper is not under src/. "looks up
      the single page on the current site whose slug matches"
      (\<^verbatim>\<open>Page.objects.get(Q(site=settings.SITE_ID), Q(title_set__slug=...))\<close>, which
      raises when no page or more than one page is found).\<close>
  "Page_objects_get ext db v =
     (case filter (\<lambda>p. page_site p = SITE_ID ext \<and> VStr (slug p) = v) (db_pages db) of
        [] \<Rightarrow> Inl Page_DoesNotExist
      | [p] \<Rightarrow> Inr p
      | _ \<Rightarrow> Inl MultipleObjectsReturned)"

definition page_pagetagging :: "database \<Rightarrow> page \<Rightarrow> error + pagetagging" where
  \<comment> \<open>Modelled from the spec: \<^verbatim>\<open>pagetags.models\<close> is not under src/. The association
      of a page (\<^verbatim>\<open>page.pagetagging\<close>), which raises when the page has none.\<close>
  "page_pagetagging db p =
     (case filter (\<lambda>pt. page_id (pt_page pt) = page_id p) (db_pagetaggings db) of
        [] \<Rightarrow> Inl PageTagging_DoesNotExist
      | pt # _ \<Rightarrow> Inr pt)"

subsection \<open>Rendering\<close>

text \<open>
  \<open>render\<close> binds the node's value (which changes the node when the binder is
  dynamic), queries, and writes the render context. It returns its text, the node and
  the context as it leaves them; a raise returns the error alone.
\<close>

fun collect_tags :: "externals \<Rightarrow> pagetagging list \<Rightarrow> string list \<Rightarrow> error + string list" where
  \<comment> \<open>the loop over \<^verbatim>\<open>page_taggings\<close>, appending to \<^verbatim>\<open>final_tag_list\<close>\<close>
  "collect_tags ext [] final_tag_list = Inr final_tag_list"
| "collect_tags ext (page_tagging # rest) final_tag_list =
     (case shlex_split ext (page_tags page_tagging) of
        Inl e \<Rightarrow> Inl e
      | Inr page_tag_list \<Rightarrow> collect_tags ext rest (final_tag_list @ page_tag_list))"

definition TagsOfTaggedPagesNode_render ::
  "externals \<Rightarrow> database \<Rightarrow> TagsOfTaggedPagesNode \<Rightarrow> render_context
     \<Rightarrow> error + (string \<times> TagsOfTaggedPagesNode \<times> render_context)" where
  "TagsOfTaggedPagesNode_render ext db node ctx =
     (let bound = tags_bind ext (tn_parsed_tags node) ctx;
          node' = node\<lparr>tn_parsed_tags := bound\<rparr>;
          page_taggings = get_by_model (pagetaggings_from_site ext db) (tags_of bound)
      in case collect_tags ext page_taggings [] of
           Inl e \<Rightarrow> Inl e
         | Inr final_tag_list \<Rightarrow>
             Inr ([], node', ctx(tn_var_name node \<mapsto> VTags (set final_tag_list))))"

definition TaggedPagesNode_render ::
  "externals \<Rightarrow> database \<Rightarrow> TaggedPagesNode \<Rightarrow> render_context
     \<Rightarrow> error + (string \<times> TaggedPagesNode \<times> render_context)" where
  "TaggedPagesNode_render ext db node ctx =
     (let bound = tags_bind ext (pn_parsed_tags node) ctx;
          node' = node\<lparr>pn_parsed_tags := bound\<rparr>;
          qs0 = pagetaggings_from_site ext db;
          qs1 = (if pn_ordering node = ''alphabetical'' then order_by_title qs0 else qs0);
          qs2 = (if pn_ordering node = ''chronological''
                 then order_by_publication_date_desc qs1 else qs1);
          page_taggings = slice_to (get_by_model qs2 (tags_of bound)) (pn_limit node)
      in Inr ([], node', ctx(pn_var_name node \<mapsto> VPages (map pt_page page_taggings))))"

definition SimilarPagesNode_render ::
  "externals \<Rightarrow> database \<Rightarrow> SimilarPagesNode \<Rightarrow> render_context
     \<Rightarrow> error + (string \<times> SimilarPagesNode \<times> render_context)" where
  "SimilarPagesNode_render ext db node ctx =
     (case slug_bind (sn_parsed_slug node) ctx of
        Inl e \<Rightarrow> Inl e
      | Inr bound \<Rightarrow>
          (let node' = node\<lparr>sn_parsed_slug := bound\<rparr> in
           case Page_objects_get ext db (slug_of bound) of
             Inl Page_DoesNotExist \<Rightarrow> Inr ([], node', ctx)
           | Inl e \<Rightarrow> Inl e
           | Inr p \<Rightarrow>
               (case page_pagetagging db p of
                  Inl e \<Rightarrow> Inl e
                | Inr pt \<Rightarrow>
                    (let page_taggings =
                           slice_to (get_related ext pt (pagetaggings_from_site ext db))
                                    (sn_limit node)
                     in Inr ([], node',
                             ctx(sn_var_name node \<mapsto> VPages (map pt_page page_taggings)))))))"

subsection \<open>A concrete site\<close>

text \<open>
  Data on which the definitions are run: a tag parser and a splitter that cut a text at
  its blanks, and a site with three tagged pages and one page of another site.
\<close>

definition split_on_blank :: "string \<Rightarrow> string list" where
  "split_on_blank s =
     filter (\<lambda>w. w \<noteq> [])
       (foldr (\<lambda>c acc. if c = CHR '' '' then [] # acc else (c # hd acc) # tl acc) s [[]])"

definition example_externals :: externals where
  "example_externals =
     \<lparr>SITE_ID = 1,
      parse_tag_input = (\<lambda>v. case v of VStr s \<Rightarrow> split_on_blank s | _ \<Rightarrow> []),
      shlex_split = (\<lambda>s. Inr (split_on_blank s)),
      get_related = (\<lambda>pt qs. filter (\<lambda>q. q \<noteq> pt) qs)\<rparr>"

definition page_a :: page where
  "page_a = \<lparr>page_id = 1, page_site = 1, title = ''Zebra'', slug = ''zebra'', publication_date = 20\<rparr>"

definition page_b :: page where
  "page_b = \<lparr>page_id = 2, page_site = 1, title = ''Apple'', slug = ''apple'', publication_date = 10\<rparr>"

definition page_c :: page where
  "page_c = \<lparr>page_id = 3, page_site = 1, title = ''Mango'', slug = ''mango'', publication_date = 30\<rparr>"

definition page_d :: page where
  "page_d = \<lparr>page_id = 4, page_site = 2, title = ''Other'', slug = ''other'', publication_date = 40\<rparr>"

definition example_db :: database where
  "example_db =
     \<lparr>db_pages = [page_a, page_b, page_c, page_d],
      db_pagetaggings =
        [\<lparr>pt_page = page_a, page_tags = ''x y'', tag_names = [''x'', ''y'']\<rparr>,
         \<lparr>pt_page = page_b, page_tags = ''x z'', tag_names = [''x'', ''z'']\<rparr>,
         \<lparr>pt_page = page_c, page_tags = ''x'', tag_names = [''x'']\<rparr>,
         \<lparr>pt_page = page_d, page_tags = ''x w'', tag_names = [''x'', ''w'']\<rparr>]\<rparr>"

subsection \<open>The closing clause\<close>

text \<open>
  Every pattern ends with \<^verbatim>\<open>\s+ as \s+ (\w+) \s*\<close>, and \<^verbatim>\<open>re.search\<close> neither
  anchors the match at the start of the text nor asks it to reach the end. The two
  predicates say where such a clause can begin: \<open>as_clause_here s\<close> holds when the
  text begins with a white-space character, \<^verbatim>\<open>as\<close>, one or more white-space
  characters and a word character; \<open>has_as_clause s\<close> holds when the text or one of
  its tails does. They are used to state on which argument texts the search fails.
\<close>

fun as_clause_here :: "string \<Rightarrow> bool" where
  "as_clause_here (w # a # s # rest) =
     (re_space w \<and> a = CHR ''a'' \<and> s = CHR ''s'' \<and> rest \<noteq> [] \<and> re_space (hd rest)
      \<and> (case dropWhile re_space rest of [] \<Rightarrow> False | c # _ \<Rightarrow> re_word c))"
| "as_clause_here _ = False"

fun has_as_clause :: "string \<Rightarrow> bool" where
  "has_as_clause [] = False"
| "has_as_clause (c # s) = (as_clause_here (c # s) \<or> has_as_clause s)"

section \<open>Properties\<close>

subsection \<open>Running the definitions\<close>

lemmas lexer_defs = extract_tag_content_def split_None_1_def py_isspace_def

lemmas regex_defs =
  tags_of_pages_with_tags_re_def pages_with_tags_re_def pages_similar_with_re_def
  order_clause_def limit_clause_def as_clause_def Plus_def starts_with_def
  re_space_def re_digit_def re_word_def

lemmas binder_defs =
  parsed_tags_def parse_slug_def quoted_def strip_quotes_def StaticTags_init_def
  DynamicTags_init_def DynamicSlug_init_def limit_and_int_def int_of_digits_def digit_val_def
  context_get_def context_getitem_def

lemmas query_defs =
  pagetaggings_from_site_def order_by_title_def order_by_publication_date_desc_def
  get_by_model_def slice_to_def Page_objects_get_def page_pagetagging_def

lemmas example_defs =
  example_externals_def example_db_def page_a_def page_b_def page_c_def page_d_def
  split_on_blank_def

subsection \<open>The query layer and the nodes\<close>

text \<open>
  C1. \<open>pages_with_tags\<close>: rendering always succeeds and writes a list of pages into the
  result variable. With a limit \<open>n\<close> the list has at most \<open>n\<close> pages, however many
  match. With no limit the list holds every matching page: as a multiset it is the pages
  of all associations of the site that match the bound tags.
\<close>

theorem pages_with_tags_limit:
  "\<exists>pages. TaggedPagesNode_render ext db node ctx =
            Inr ([], node\<lparr>pn_parsed_tags := tags_bind ext (pn_parsed_tags node) ctx\<rparr>,
                 ctx(pn_var_name node \<mapsto> VPages pages))
     \<and> (\<forall>n. pn_limit node = Some n \<longrightarrow> length pages \<le> n)
     \<and> (pn_limit node = None \<longrightarrow>
          mset pages = mset (map pt_page (get_by_model (pagetaggings_from_site ext db)
                               (tags_of (tags_bind ext (pn_parsed_tags node) ctx)))))"
  by (auto simp: TaggedPagesNode_render_def Let_def slice_to_def get_by_model_def
      order_by_title_def order_by_publication_date_desc_def)

text \<open>
  On the concrete site three pages carry the tag \<open>x\<close>; the directive
  \<^verbatim>\<open>pages_with_tags "x" limit 2 as r\<close> compiles to a node with the limit 2, and the
  list it writes has at most two pages.
\<close>

theorem pages_with_tags_limit_witness:
  "pages_with_tags example_externals ''pages_with_tags \"x\" limit 2 as r'' =
     Inr \<lparr>pn_parsed_tags = StaticTags [''x''], pn_ordering = ''chronological'',
          pn_limit = Some 2, pn_var_name = ''r''\<rparr>
   \<and> length (get_by_model (pagetaggings_from_site example_externals example_db) [''x'']) = 3
   \<and> (\<exists>pages.
        TaggedPagesNode_render example_externals example_db
          \<lparr>pn_parsed_tags = StaticTags [''x''], pn_ordering = ''chronological'',
           pn_limit = Some 2, pn_var_name = ''r''\<rparr> Map.empty =
        Inr ([], \<lparr>pn_parsed_tags = StaticTags [''x''], pn_ordering = ''chronological'',
                  pn_limit = Some 2, pn_var_name = ''r''\<rparr>,
             [''r'' \<mapsto> VPages pages])
        \<and> length pages \<le> 2)"
proof -
  have parse: "pages_with_tags example_externals ''pages_with_tags \"x\" limit 2 as r'' =
     Inr \<lparr>pn_parsed_tags = StaticTags [''x''], pn_ordering = ''chronological'',
          pn_limit = Some 2, pn_var_name = ''r''\<rparr>"
    by (simp add: pages_with_tags_def parse_pages_with_tags_def TaggedPagesNode_init_def
        lexer_defs regex_defs binder_defs example_defs)
  have three: "length (get_by_model (pagetaggings_from_site example_externals example_db) [''x'']) = 3"
    by (simp add: query_defs example_defs)
  from pages_with_tags_limit
    [of example_externals example_db
        "\<lparr>pn_parsed_tags = StaticTags [''x''], pn_ordering = ''chronological'',
          pn_limit = Some 2, pn_var_name = ''r''\<rparr>" Map.empty]
  have "\<exists>pages.
        TaggedPagesNode_render example_externals example_db
          \<lparr>pn_parsed_tags = StaticTags [''x''], pn_ordering = ''chronological'',
           pn_limit = Some 2, pn_var_name = ''r''\<rparr> Map.empty =
        Inr ([], \<lparr>pn_parsed_tags = StaticTags [''x''], pn_ordering = ''chronological'',
                  pn_limit = Some 2, pn_var_name = ''r''\<rparr>,
             [''r'' \<mapsto> VPages pages])
        \<and> length pages \<le> 2"
    by simp
  with parse three show ?thesis by simp
qed

text \<open>
  C4. \<open>pages_similar_with\<close>: when the slug binds and no page of the current site has the
  bound slug, \<open>render\<close> returns the empty text and leaves the render context as it was,
  so the result variable is not written; nothing is raised.
\<close>

theorem pages_similar_with_miss:
  assumes "slug_bind (sn_parsed_slug node) ctx = Inr bound"
    and "\<forall>p \<in> set (db_pages db). \<not> (page_site p = SITE_ID ext \<and> VStr (slug p) = slug_of bound)"
  shows "SimilarPagesNode_render ext db node ctx = Inr ([], node\<lparr>sn_parsed_slug := bound\<rparr>, ctx)"
proof -
  have "filter (\<lambda>p. page_site p = SITE_ID ext \<and> VStr (slug p) = slug_of bound) (db_pages db) = []"
    using assms(2) by (simp add: filter_empty_conv)
  then have "Page_objects_get ext db (slug_of bound) = Inl Page_DoesNotExist"
    by (simp add: Page_objects_get_def)
  then show ?thesis using assms(1) by (simp add: SimilarPagesNode_render_def)
qed

text \<open>
  \<^verbatim>\<open>pages_similar_with "missing-slug" as r\<close> on the concrete site, where no page has
  that slug: the empty text, and \<open>r\<close> stays unset.
\<close>

theorem pages_similar_with_miss_witness:
  "pages_similar_with ''pages_similar_with \"missing-slug\" as r'' =
     Inr \<lparr>sn_parsed_slug = StaticSlug ''missing-slug'', sn_limit = None, sn_var_name = ''r''\<rparr>
   \<and> slug_bind (StaticSlug ''missing-slug'') Map.empty = Inr (StaticSlug ''missing-slug'')
   \<and> \<not> (\<exists>p \<in> set (db_pages example_db).
           page_site p = SITE_ID example_externals
           \<and> VStr (slug p) = slug_of (StaticSlug ''missing-slug''))
   \<and> SimilarPagesNode_render example_externals example_db
        \<lparr>sn_parsed_slug = StaticSlug ''missing-slug'', sn_limit = None, sn_var_name = ''r''\<rparr>
        Map.empty =
      Inr ([], \<lparr>sn_parsed_slug = StaticSlug ''missing-slug'', sn_limit = None,
                sn_var_name = ''r''\<rparr>, Map.empty)"
proof -
  have parse: "pages_similar_with ''pages_similar_with \"missing-slug\" as r'' =
     Inr \<lparr>sn_parsed_slug = StaticSlug ''missing-slug'', sn_limit = None, sn_var_name = ''r''\<rparr>"
    by (simp add: pages_similar_with_def parse_pages_similar_with_def
        lexer_defs regex_defs binder_defs)
  have b: "slug_bind (sn_parsed_slug \<lparr>sn_parsed_slug = StaticSlug ''missing-slug'',
             sn_limit = None, sn_var_name = ''r''\<rparr>) Map.empty =
           Inr (StaticSlug ''missing-slug'')"
    by simp
  have none: "\<forall>p \<in> set (db_pages example_db).
         \<not> (page_site p = SITE_ID example_externals
            \<and> VStr (slug p) = slug_of (StaticSlug ''missing-slug''))"
    by (simp add: example_defs)
  from pages_similar_with_miss [OF b none] parse none show ?thesis by simp
qed

subsection \<open>Value binders\<close>

text \<open>
  C6. A token whose first and last characters are the same quote character, single or
  double, makes a static binder: \<open>parsed_tags\<close> gives a \<open>StaticTags\<close> that holds the
  tags parsed from the text between the quotes (\<^verbatim>\<open>s[1:-1]\<close>), \<open>parse_slug\<close> a
  \<open>StaticSlug\<close> that holds that text. Binding a static binder against any render
  context leaves it as it is, once or repeatedly.
\<close>

theorem quoted_token_static:
  assumes "s \<noteq> []" and "hd s = last s" and "hd s = CHR 0x22 \<or> hd s = CHR 0x27"
  shows "parsed_tags ext s = Inr (StaticTags (parse_tag_input ext (VStr (butlast (tl s)))))
       \<and> parse_slug s = Inr (StaticSlug (butlast (tl s)))
       \<and> tags_bind ext (StaticTags (parse_tag_input ext (VStr (butlast (tl s))))) ctx
           = StaticTags (parse_tag_input ext (VStr (butlast (tl s))))
       \<and> tags_bind ext
             (tags_bind ext (StaticTags (parse_tag_input ext (VStr (butlast (tl s))))) ctx) ctx'
           = StaticTags (parse_tag_input ext (VStr (butlast (tl s))))
       \<and> slug_bind (StaticSlug (butlast (tl s))) ctx = Inr (StaticSlug (butlast (tl s)))"
  using assms
  by (auto simp: parsed_tags_def parse_slug_def quoted_def strip_quotes_def StaticTags_init_def)

text \<open>The token \<^verbatim>\<open>"a b"\<close>, with the tag parser of the concrete site.\<close>

theorem quoted_token_static_witness:
  "parsed_tags example_externals ''\"a b\"'' = Inr (StaticTags [''a'', ''b''])
   \<and> parse_slug ''\"a b\"'' = Inr (StaticSlug ''a b'')
   \<and> tags_bind example_externals (StaticTags [''a'', ''b'']) [''a'' \<mapsto> VStr ''c''] = StaticTags [''a'', ''b'']
   \<and> slug_bind (StaticSlug ''a b'') [''a'' \<mapsto> VStr ''c''] = Inr (StaticSlug ''a b'')"
proof -
  have pti: "parse_tag_input example_externals (VStr ''a b'') = [''a'', ''b'']"
    by (simp add: example_defs)
  have "''\"a b\"'' \<noteq> []" and "hd ''\"a b\"'' = last ''\"a b\"''"
    and "hd ''\"a b\"'' = CHR 0x22 \<or> hd ''\"a b\"'' = CHR 0x27"
    by simp_all
  from quoted_token_static
    [OF this, where ext = example_externals and ctx = "[''a'' \<mapsto> VStr ''c'']"] pti
  show ?thesis by simp
qed

text \<open>
  C8. A dynamic binder whose variable is not in the render context. The tags binder
  binds without error to the tags parsed from the default \<^verbatim>\<open>''\<close>, the empty list
  when \<^verbatim>\<open>parse_tag_input\<close> maps the empty text to no tags. The slug binder raises
  \<^verbatim>\<open>KeyError\<close>, which \<open>render\<close> of the similar-pages node does not catch.
\<close>

theorem dynamic_missing_variable:
  assumes "ctx varname = None"
  shows "tags_bind ext (DynamicTags varname ts) ctx
           = DynamicTags varname (parse_tag_input ext (VStr []))
       \<and> (parse_tag_input ext (VStr []) = [] \<longrightarrow>
            tags_of (tags_bind ext (DynamicTags varname ts) ctx) = [])
       \<and> slug_bind (DynamicSlug varname v) ctx = Inl KeyError
       \<and> (sn_parsed_slug node = DynamicSlug varname v \<longrightarrow>
            SimilarPagesNode_render ext db node ctx = Inl KeyError)"
  using assms by (simp add: context_get_def context_getitem_def SimilarPagesNode_render_def)

text \<open>The empty render context and the variable \<open>t\<close>.\<close>

theorem dynamic_missing_variable_witness:
  "Map.empty ''t'' = (None :: pyval option)
   \<and> parse_tag_input example_externals (VStr []) = []
   \<and> tags_bind example_externals (DynamicTags ''t'' [''old'']) Map.empty = DynamicTags ''t'' []
   \<and> slug_bind (DynamicSlug ''t'' (VStr [])) Map.empty = Inl KeyError
   \<and> SimilarPagesNode_render example_externals example_db
        \<lparr>sn_parsed_slug = DynamicSlug ''t'' (VStr []), sn_limit = None, sn_var_name = ''r''\<rparr>
        Map.empty = Inl KeyError"
proof -
  have a: "(Map.empty :: render_context) ''t'' = None" by simp
  have b: "parse_tag_input example_externals (VStr []) = []" by (simp add: example_defs)
  from dynamic_missing_variable
    [OF a, where ext = example_externals and ts = "[''old'']" and v = "VStr []"
       and node = "\<lparr>sn_parsed_slug = DynamicSlug ''t'' (VStr []), sn_limit = None,
                     sn_var_name = ''r''\<rparr>"
       and db = example_db] b
  show ?thesis by simp
qed

subsection \<open>The tag aggregator\<close>

text \<open>
  The loop over the matching associations: when every cached tag text splits, the list
  it builds holds the tags of all of them; when one does not split, the loop raises.
\<close>

lemma collect_tags_ok:
  "\<forall>pt \<in> set pts. \<exists>ts. shlex_split ext (page_tags pt) = Inr ts \<Longrightarrow>
   \<exists>final. collect_tags ext pts acc = Inr final \<and>
     set final = set acc \<union>
       (\<Union>pt \<in> set pts. case shlex_split ext (page_tags pt) of Inr ts \<Rightarrow> set ts | Inl e \<Rightarrow> {})"
proof (induction pts arbitrary: acc)
  case Nil
  then show ?case by simp
next
  case (Cons pt pts)
  then obtain ts where ts: "shlex_split ext (page_tags pt) = Inr ts" by auto
  from Cons.prems have "\<forall>pt \<in> set pts. \<exists>ts. shlex_split ext (page_tags pt) = Inr ts" by simp
  from Cons.IH [OF this, of "acc @ ts"] ts show ?case by auto
qed

lemma collect_tags_raises:
  "\<exists>pt \<in> set pts. \<exists>e. shlex_split ext (page_tags pt) = Inl e \<Longrightarrow>
   \<exists>e. collect_tags ext pts acc = Inl e"
proof (induction pts arbitrary: acc)
  case Nil
  then show ?case by simp
next
  case (Cons pt pts)
  show ?case
  proof (cases "shlex_split ext (page_tags pt)")
    case (Inl e)
    then show ?thesis by simp
  next
    case (Inr ts)
    with Cons.prems have "\<exists>pt \<in> set pts. \<exists>e. shlex_split ext (page_tags pt) = Inl e" by auto
    from Cons.IH [OF this, of "acc @ ts"] Inr show ?thesis by simp
  qed
qed

lemma get_by_model_set: "set ts1 = set ts2 \<Longrightarrow> get_by_model qs ts1 = get_by_model qs ts2"
  by (simp add: get_by_model_def)

text \<open>
  C3. \<open>tags_of_pages_with_tags\<close>: when the cached tag text of every matching association
  splits, \<open>render\<close> writes into the result variable the set that is the union, over the
  matching associations, of the tags \<^verbatim>\<open>shlex.split\<close> gives for the cached tag text.
  The value is a set, so a tag that several matching pages carry is in it once.
\<close>

theorem tags_of_pages_union:
  assumes "\<forall>pt \<in> set (get_by_model (pagetaggings_from_site ext db)
                        (tags_of (tags_bind ext (tn_parsed_tags node) ctx))).
             \<exists>ts. shlex_split ext (page_tags pt) = Inr ts"
  shows "TagsOfTaggedPagesNode_render ext db node ctx =
     Inr ([], node\<lparr>tn_parsed_tags := tags_bind ext (tn_parsed_tags node) ctx\<rparr>,
          ctx(tn_var_name node \<mapsto>
            VTags (\<Union>pt \<in> set (get_by_model (pagetaggings_from_site ext db)
                                 (tags_of (tags_bind ext (tn_parsed_tags node) ctx))).
                     case shlex_split ext (page_tags pt) of Inr ts \<Rightarrow> set ts | Inl e \<Rightarrow> {})))"
proof -
  from collect_tags_ok [OF assms, of "[]"] obtain final where
    "collect_tags ext (get_by_model (pagetaggings_from_site ext db)
        (tags_of (tags_bind ext (tn_parsed_tags node) ctx))) [] = Inr final"
    and "set final = (\<Union>pt \<in> set (get_by_model (pagetaggings_from_site ext db)
                                 (tags_of (tags_bind ext (tn_parsed_tags node) ctx))).
                     case shlex_split ext (page_tags pt) of Inr ts \<Rightarrow> set ts | Inl e \<Rightarrow> {})"
    by auto
  then show ?thesis by (simp add: TagsOfTaggedPagesNode_render_def Let_def)
qed

text \<open>When the cached tag text of a matching association does not split, \<open>render\<close> raises.\<close>

lemma tags_of_pages_raises:
  assumes "\<exists>pt \<in> set (get_by_model (pagetaggings_from_site ext db)
                        (tags_of (tags_bind ext (tn_parsed_tags node) ctx))).
             \<exists>e. shlex_split ext (page_tags pt) = Inl e"
  shows "\<exists>e. TagsOfTaggedPagesNode_render ext db node ctx = Inl e"
proof -
  from collect_tags_raises [OF assms, of "[]"] obtain e where
    "collect_tags ext (get_by_model (pagetaggings_from_site ext db)
        (tags_of (tags_bind ext (tn_parsed_tags node) ctx))) [] = Inl e" by auto
  then show ?thesis by (simp add: TagsOfTaggedPagesNode_render_def Let_def)
qed

text \<open>
  On the concrete site the three pages that match \<open>x\<close> have the cached tags
  \<open>x y\<close>, \<open>x z\<close> and \<open>x\<close>: the set written is \<open>{x, y, z}\<close>, with \<open>x\<close> once.
\<close>

theorem tags_of_pages_union_witness:
  "tags_of_pages_with_tags example_externals ''tags_of_pages_with_tags \"x\" as r'' =
     Inr \<lparr>tn_parsed_tags = StaticTags [''x''], tn_var_name = ''r''\<rparr>
   \<and> map page_tags (get_by_model (pagetaggings_from_site example_externals example_db) [''x''])
       = [''x y'', ''x z'', ''x'']
   \<and> TagsOfTaggedPagesNode_render example_externals example_db
        \<lparr>tn_parsed_tags = StaticTags [''x''], tn_var_name = ''r''\<rparr> Map.empty =
      Inr ([], \<lparr>tn_parsed_tags = StaticTags [''x''], tn_var_name = ''r''\<rparr>,
           [''r'' \<mapsto> VTags {''x'', ''y'', ''z''}])"
proof -
  have parse: "tags_of_pages_with_tags example_externals ''tags_of_pages_with_tags \"x\" as r'' =
     Inr \<lparr>tn_parsed_tags = StaticTags [''x''], tn_var_name = ''r''\<rparr>"
    by (simp add: tags_of_pages_with_tags_def parse_tags_of_pages_with_tags_def
        lexer_defs regex_defs binder_defs example_defs)
  have m: "map page_tags (get_by_model (pagetaggings_from_site example_externals example_db) [''x''])
       = [''x y'', ''x z'', ''x'']"
    by (simp add: query_defs example_defs)
  have ok: "\<forall>pt \<in> set (get_by_model (pagetaggings_from_site example_externals example_db)
                        (tags_of (tags_bind example_externals
                           (tn_parsed_tags \<lparr>tn_parsed_tags = StaticTags [''x''], tn_var_name = ''r''\<rparr>)
                           Map.empty))).
             \<exists>ts. shlex_split example_externals (page_tags pt) = Inr ts"
    by (simp add: example_externals_def)
  have u: "(\<Union>pt \<in> set (get_by_model (pagetaggings_from_site example_externals example_db) [''x'']).
             case shlex_split example_externals (page_tags pt) of Inr ts \<Rightarrow> set ts | Inl e \<Rightarrow> {})
           = {''x'', ''y'', ''z''}"
    by (auto simp: query_defs example_defs)
  from tags_of_pages_union [OF ok] u parse m show ?thesis by simp
qed

text \<open>
  C9. \<open>tags_of_pages_with_tags\<close>: for two static tag lists that are permutations of each
  other, rendering over the same database and render context gives the same outcome:
  the same text and the same render context, with the same set in the result variable,
  or the same error.
\<close>

theorem tags_of_pages_tag_order:
  assumes "mset ts1 = mset ts2"
  shows "map_sum id (\<lambda>(out, node', ctx'). (out, ctx'))
           (TagsOfTaggedPagesNode_render ext db
              \<lparr>tn_parsed_tags = StaticTags ts1, tn_var_name = v\<rparr> ctx)
       = map_sum id (\<lambda>(out, node', ctx'). (out, ctx'))
           (TagsOfTaggedPagesNode_render ext db
              \<lparr>tn_parsed_tags = StaticTags ts2, tn_var_name = v\<rparr> ctx)"
proof -
  from assms have "set ts1 = set ts2" by (rule mset_eq_setD)
  then have "get_by_model (pagetaggings_from_site ext db) ts1 =
             get_by_model (pagetaggings_from_site ext db) ts2"
    by (rule get_by_model_set)
  then show ?thesis
    by (simp add: TagsOfTaggedPagesNode_render_def Let_def split: sum.splits)
qed

text \<open>
  \<^verbatim>\<open>"y z"\<close> and \<^verbatim>\<open>"z y"\<close> on the concrete site: the nodes hold the tags in the order
  of the text, and both write \<open>{x, y, z}\<close>.
\<close>

theorem tags_of_pages_tag_order_witness:
  "tags_of_pages_with_tags example_externals ''tags_of_pages_with_tags \"y z\" as r'' =
     Inr \<lparr>tn_parsed_tags = StaticTags [''y'', ''z''], tn_var_name = ''r''\<rparr>
   \<and> tags_of_pages_with_tags example_externals ''tags_of_pages_with_tags \"z y\" as r'' =
     Inr \<lparr>tn_parsed_tags = StaticTags [''z'', ''y''], tn_var_name = ''r''\<rparr>
   \<and> mset [''y'', ''z''] = mset [''z'', ''y'']
   \<and> TagsOfTaggedPagesNode_render example_externals example_db
        \<lparr>tn_parsed_tags = StaticTags [''y'', ''z''], tn_var_name = ''r''\<rparr> Map.empty =
      Inr ([], \<lparr>tn_parsed_tags = StaticTags [''y'', ''z''], tn_var_name = ''r''\<rparr>,
           [''r'' \<mapsto> VTags {''x'', ''y'', ''z''}])
   \<and> map_sum id (\<lambda>(out, node', ctx'). (out, ctx'))
        (TagsOfTaggedPagesNode_render example_externals example_db
           \<lparr>tn_parsed_tags = StaticTags [''z'', ''y''], tn_var_name = ''r''\<rparr> Map.empty) =
      Inr ([], [''r'' \<mapsto> VTags {''x'', ''y'', ''z''}])"
proof -
  have p1: "tags_of_pages_with_tags example_externals ''tags_of_pages_with_tags \"y z\" as r'' =
     Inr \<lparr>tn_parsed_tags = StaticTags [''y'', ''z''], tn_var_name = ''r''\<rparr>"
    by (simp add: tags_of_pages_with_tags_def parse_tags_of_pages_with_tags_def
        lexer_defs regex_defs binder_defs example_defs)
  have p2: "tags_of_pages_with_tags example_externals ''tags_of_pages_with_tags \"z y\" as r'' =
     Inr \<lparr>tn_parsed_tags = StaticTags [''z'', ''y''], tn_var_name = ''r''\<rparr>"
    by (simp add: tags_of_pages_with_tags_def parse_tags_of_pages_with_tags_def
        lexer_defs regex_defs binder_defs example_defs)
  have perm: "mset [''y'', ''z''] = mset [''z'', ''y'']" by simp
  have s: "{''y'', ''x'', ''z''} = {''x'', ''y'', ''z''}" by auto
  have r1: "TagsOfTaggedPagesNode_render example_externals example_db
        \<lparr>tn_parsed_tags = StaticTags [''y'', ''z''], tn_var_name = ''r''\<rparr> Map.empty =
      Inr ([], \<lparr>tn_parsed_tags = StaticTags [''y'', ''z''], tn_var_name = ''r''\<rparr>,
           [''r'' \<mapsto> VTags {''x'', ''y'', ''z''}])"
    by (simp add: TagsOfTaggedPagesNode_render_def Let_def query_defs example_defs
        insert_commute s)
  from tags_of_pages_tag_order [OF perm, of example_externals example_db "''r''" Map.empty]
    p1 p2 perm r1
  show ?thesis by simp
qed



subsection \<open>The matcher\<close>

text \<open>The search unfolds along the text only.\<close>

lemma re_search_Nil [simp]:
  "re_search r [] = (case matches r ([], Map.empty) of st # _ \<Rightarrow> Some (snd st) | [] \<Rightarrow> None)"
  by (simp split: list.splits)

lemma re_search_Cons [simp]:
  "re_search r (c # s) =
     (case matches r (c # s, Map.empty) of st # _ \<Rightarrow> Some (snd st) | [] \<Rightarrow> re_search r s)"
  by (simp split: list.splits)

declare re_search.simps [simp del]

lemma upt_0_Suc: "[0..<Suc n] = 0 # map Suc [0..<n]"
  by (simp add: upt_conv_Cons map_Suc_upt del: upt_Suc)

lemma star_lazy_dot:
  "length s \<le> n \<Longrightarrow>
   star_lazy (matches (Cls Dot)) n (s, g) =
   map (\<lambda>k. (drop k s, g)) [0..<Suc (length (takeWhile (\<lambda>c. c \<noteq> CHR 0x0A) s))]"
proof (induction s arbitrary: n)
  case Nil
  then show ?case by (cases n) simp_all
next
  case (Cons c s)
  then obtain n' where n: "n = Suc n'" and le: "length s \<le> n'" by (cases n) auto
  show ?case
  proof (cases "c = CHR 0x0A")
    case True
    then show ?thesis by (simp add: n)
  next
    case False
    have "star_lazy (matches (Cls Dot)) n (c # s, g) =
          (c # s, g) # star_lazy (matches (Cls Dot)) n' (s, g)"
      using False by (simp add: n)
    also have "\<dots> = (c # s, g) #
        map (\<lambda>k. (drop k s, g)) [0..<Suc (length (takeWhile (\<lambda>c. c \<noteq> CHR 0x0A) s))]"
      by (simp only: Cons.IH [OF le])
    also have "\<dots> = map (\<lambda>k. (drop k (c # s), g))
        [0..<Suc (length (takeWhile (\<lambda>c. c \<noteq> CHR 0x0A) (c # s)))]"
      using False by (simp add: upt_0_Suc [of "Suc _"] comp_def del: upt_Suc)
    finally show ?thesis .
  qed
qed

lemma lazy_search_upt:
  "lazy_search i R pre s g =
   concat (map (\<lambda>k. matches R (drop k s, g(i \<mapsto> pre @ take k s)))
               [0..<Suc (length (takeWhile (\<lambda>c. c \<noteq> CHR 0x0A) s))])"
proof (induction s arbitrary: pre)
  case Nil
  have "[0..<Suc (length (takeWhile (\<lambda>c. c \<noteq> CHR 0x0A) ([]::string)))] = [0]" by simp
  then show ?case by (simp only: lazy_search.simps list.map concat.simps append_Nil2
        drop_Nil take_Nil)
next
  case (Cons c s)
  show ?case
  proof (cases "c = CHR 0x0A")
    case True
    then have "[0..<Suc (length (takeWhile (\<lambda>c. c \<noteq> CHR 0x0A) (c # s)))] = [0]" by simp
    then show ?thesis using True
      by (simp only: lazy_search.simps list.map concat.simps append_Nil2
          drop_0 take_0 if_False simp_thms)
  next
    case False
    have "[0..<Suc (length (takeWhile (\<lambda>c. c \<noteq> CHR 0x0A) (c # s)))] =
          0 # map Suc [0..<Suc (length (takeWhile (\<lambda>c. c \<noteq> CHR 0x0A) s))]"
      using False by (simp add: upt_0_Suc [of "Suc _"] del: upt_Suc)
    then show ?thesis using False
      by (simp only: lazy_search.simps list.map concat.simps append_Nil2 map_map comp_def
          drop_0 take_0 drop_Suc_Cons take_Suc_Cons if_True simp_thms Cons.IH append_assoc
          append_Cons append_Nil)
  qed
qed

lemma lazy_capture:
  "matches (Seq (Group i (LazyStar (Cls Dot))) R) (s, g) = lazy_search i R [] s g"
proof -
  have "matches (Group i (LazyStar (Cls Dot))) (s, g) =
        map (\<lambda>k. (drop k s, g(i \<mapsto> take k s)))
            [0..<Suc (length (takeWhile (\<lambda>c. c \<noteq> CHR 0x0A) s))]"
  proof -
    have le: "k \<le> length s" if "k \<in> set [0..<Suc (length (takeWhile (\<lambda>c. c \<noteq> CHR 0x0A) s))]" for k
      using that length_takeWhile_le [of "\<lambda>c. c \<noteq> CHR 0x0A" s] by auto
    have "matches (Group i (LazyStar (Cls Dot))) (s, g) =
          map (\<lambda>k. (drop k s, g(i \<mapsto> take (length s - length (drop k s)) s)))
              [0..<Suc (length (takeWhile (\<lambda>c. c \<noteq> CHR 0x0A) s))]"
      by (simp add: star_lazy_dot comp_def del: upt_Suc)
    also have "\<dots> = map (\<lambda>k. (drop k s, g(i \<mapsto> take k s)))
            [0..<Suc (length (takeWhile (\<lambda>c. c \<noteq> CHR 0x0A) s))]"
      by (rule map_cong [OF refl]) (use le in \<open>simp del: upt_Suc\<close>)
    finally show ?thesis .
  qed
  then show ?thesis
    by (simp add: lazy_search_upt comp_def del: upt_Suc)
qed

lemma concat_map_Nil: "(\<And>x. x \<in> set xs \<Longrightarrow> f x = []) \<Longrightarrow> concat (map f xs) = []"
  by (induction xs) simp_all

lemma star_greedy_dead: "m st = [] \<Longrightarrow> star_greedy m n st = [st]"
  by (cases n) simp_all

lemma star_dead: "matches r st = [] \<Longrightarrow> matches (Star r) st = [st]"
  by (simp add: star_greedy_dead)

lemma plus_space_dead: "u = [] \<or> \<not> re_space (hd u) \<Longrightarrow> matches (Plus (Cls Space)) (u, g) = []"
  by (cases u) (auto simp: Plus_def)

lemma plus_space_one:
  "\<not> re_space c \<Longrightarrow> matches (Plus (Cls Space)) (CHR '' '' # c # u, g) = [(c # u, g)]"
  by (simp add: Plus_def re_space_def)

lemma order_clause_dead:
  "u = [] \<or> \<not> re_space (hd u) \<Longrightarrow> matches order_clause (u, g) = []"
  by (simp add: order_clause_def plus_space_dead)

lemma limit_clause_dead:
  "u = [] \<or> \<not> re_space (hd u) \<Longrightarrow> matches (limit_clause i j) (u, g) = []"
  by (simp add: limit_clause_def plus_space_dead)

lemma as_clause_dead:
  "u = [] \<or> \<not> re_space (hd u) \<Longrightarrow> matches (seqs (as_clause n)) (u, g) = []"
  by (simp add: as_clause_def plus_space_dead)

lemma order_clause_miss:
  "\<not> re_space c \<Longrightarrow> c \<noteq> CHR ''o'' \<Longrightarrow> matches order_clause (CHR '' '' # c # u, g) = []"
  by (simp add: order_clause_def plus_space_one starts_with_def)

lemma limit_clause_miss:
  "\<not> re_space c \<Longrightarrow> c \<noteq> CHR ''l'' \<Longrightarrow> matches (limit_clause i j) (CHR '' '' # c # u, g) = []"
  by (simp add: limit_clause_def plus_space_one starts_with_def)

lemma as_clause_miss:
  "\<not> re_space c \<Longrightarrow> c \<noteq> CHR ''a'' \<Longrightarrow> matches (seqs (as_clause n)) (CHR '' '' # c # u, g) = []"
  by (simp add: as_clause_def plus_space_one starts_with_def)

lemma tags_rest_dead:
  "u = [] \<or> \<not> re_space (hd u) \<Longrightarrow> matches (seqs (as_clause n)) (u, g) = []"
  by (rule as_clause_dead)


lemma pages_rest_dead:
  "u = [] \<or> \<not> re_space (hd u) \<Longrightarrow>
   matches (Seq (Star order_clause) (Seq (Star (limit_clause i j)) (seqs (as_clause n)))) (u, g) = []"
  using limit_clause_dead [of u i j g] as_clause_dead [of u n g] order_clause_dead [of u g]
  by (simp add: star_greedy_dead)

lemma lazy_skip:
  assumes dead: "\<And>u g. u = [] \<or> \<not> re_space (hd u) \<Longrightarrow> matches R (u, g) = []"
    and T: "\<forall>c \<in> set T. \<not> re_space c"
  shows "lazy_search i R pre (T @ s) g = lazy_search i R (pre @ T) s g"
  using T
proof (induction T arbitrary: pre)
  case Nil
  then show ?case by simp
next
  case (Cons c T)
  then have c: "\<not> re_space c" and T: "\<forall>c \<in> set T. \<not> re_space c" by simp_all
  from c have nl: "c \<noteq> CHR 0x0A" by (auto simp: re_space_def)
  have "matches R (c # T @ s, g(i \<mapsto> pre)) = []" using c by (simp add: dead)
  with nl Cons.IH [OF T, of "pre @ [c]"] show ?case by simp
qed



lemma lazy_search_hit:
  "matches R (s, g(i \<mapsto> pre)) = st # rest \<Longrightarrow> \<exists>rest'. lazy_search i R pre s g = st # rest'"
  by (cases s) simp_all

lemma plus_space_single:
  "re_space c0 \<Longrightarrow> u = [] \<or> \<not> re_space (hd u) \<Longrightarrow>
   matches (Plus (Cls Space)) (c0 # u, g) = [(u, g)]"
  by (cases u) (auto simp: Plus_def)









lemma pages_with_tags_re_split:
  "pages_with_tags_re =
   Seq (Group 1 (LazyStar (Cls Dot)))
     (Seq (Star order_clause) (Seq (Star (limit_clause 4 5)) (seqs (as_clause 6))))"
  by (simp add: pages_with_tags_re_def as_clause_def)






subsection \<open>The lexer\<close>

lemma re_space_py_isspace: "re_space c \<Longrightarrow> py_isspace c"
  by (auto simp: re_space_def py_isspace_def)


lemma split_args:
  assumes "name \<noteq> []" and "\<forall>c \<in> set name. \<not> py_isspace c"
    and "arg \<noteq> []" and "\<not> py_isspace (hd arg)"
  shows "split_None_1 (name @ CHR '' '' # arg) = [name, arg]"
proof -
  have sp: "py_isspace CHR '' ''" by (simp add: py_isspace_def)
  from assms(1,2) have h: "\<not> py_isspace (hd name)" by simp
  with assms(1) have d: "dropWhile py_isspace (name @ CHR '' '' # arg) = name @ CHR '' '' # arg"
    by (cases name) simp_all
  have t: "takeWhile (\<lambda>c. \<not> py_isspace c) (name @ CHR '' '' # arg) = name"
    using assms(2) sp by simp
  have r: "dropWhile (\<lambda>c. \<not> py_isspace c) (name @ CHR '' '' # arg) = CHR '' '' # arg"
    using assms(2) sp by simp
  have e: "dropWhile py_isspace (CHR '' '' # arg) = arg"
    using assms(3,4) sp by (cases arg) simp_all
  show ?thesis unfolding split_None_1_def Let_def d t r e using assms(1,3) by simp
qed


lemma extract_args:
  assumes "name \<noteq> []" and "\<forall>c \<in> set name. \<not> py_isspace c"
    and "arg \<noteq> []" and "\<not> py_isspace (hd arg)"
  shows "extract_tag_content (name @ CHR '' '' # arg) = Inr (name, arg)"
  by (simp add: extract_tag_content_def split_args [OF assms])

subsection \<open>Syntax errors\<close>



subsection \<open>Clauses that match\<close>

lemma re_word_not_space: "re_word c \<Longrightarrow> \<not> re_space c"
  by (auto simp: re_word_def re_space_def)

lemma re_digit_not_space: "re_digit c \<Longrightarrow> \<not> re_space c"
  by (auto simp: re_digit_def re_space_def)

lemma re_search_hit: "matches r (s, Map.empty) = st # rest \<Longrightarrow> re_search r s = Some (snd st)"
  by (cases s) (simp_all del: matches.simps)

lemma star_word_all:
  "\<forall>c \<in> set V. re_word c \<Longrightarrow> length V \<le> n \<Longrightarrow>
   \<exists>rest. star_greedy (matches (Cls Word)) n (V, g) = ([], g) # rest"
proof (induction V arbitrary: n)
  case Nil
  then show ?case by (simp add: star_greedy_dead)
next
  case (Cons c V)
  then obtain n' where n: "n = Suc n'" and le: "length V \<le> n'" by (cases n) auto
  from Cons.prems have "\<forall>c \<in> set V. re_word c" by simp
  from Cons.IH [OF this le] obtain rest where
    "star_greedy (matches (Cls Word)) n' (V, g) = ([], g) # rest" by blast
  moreover from Cons.prems have "matches (Cls Word) (c # V, g) = [(V, g)]" by simp
  ultimately show ?case by (simp add: n del: matches.simps)
qed

lemma plus_word_hit:
  assumes "V \<noteq> []" and "\<forall>c \<in> set V. re_word c"
  shows "\<exists>rest. matches (Plus (Cls Word)) (V, g) = ([], g) # rest"
proof -
  from assms obtain c V' where V: "V = c # V'" and c: "re_word c" and V': "\<forall>c \<in> set V'. re_word c"
    by (cases V) auto
  from star_word_all [OF V' le_refl] obtain rest where
    "star_greedy (matches (Cls Word)) (length V') (V', g) = ([], g) # rest" by blast
  moreover from c have "matches (Cls Word) (c # V', g) = [(V', g)]" by simp
  ultimately show ?thesis by (simp add: V Plus_def del: matches.simps(2))
qed

lemma as_clause_hit:
  assumes "V \<noteq> []" and "\<forall>c \<in> set V. re_word c"
  shows "\<exists>rest. matches (seqs (as_clause n)) ('' as '' @ V, g) = ([], g(n \<mapsto> V)) # rest"
proof -
  from plus_word_hit [OF assms] obtain rest where
    w: "matches (Plus (Cls Word)) (V, g) = ([], g) # rest" by blast
  from assms have "\<not> re_space (hd V)" by (simp add: re_word_not_space)
  then have s2: "matches (Plus (Cls Space)) (CHR '' '' # V, g) = [(V, g)]"
    by (intro plus_space_single) (simp_all add: re_space_def)
  have s1: "matches (Plus (Cls Space)) (CHR '' '' # CHR ''a'' # CHR ''s'' # CHR '' '' # V, g)
            = [(CHR ''a'' # CHR ''s'' # CHR '' '' # V, g)]"
    by (simp add: plus_space_one re_space_def)
  show ?thesis
    by (simp add: as_clause_def s1 s2 w starts_with_def star_greedy_dead)
qed

lemma order_clause_hit:
  "matches order_clause ('' order alphabetical'' @ u, g) =
     [(u, g(3 \<mapsto> ''alphabetical'', 2 \<mapsto> '' order alphabetical''))]"
  "matches order_clause ('' order chronological'' @ u, g) =
     [(u, g(3 \<mapsto> ''chronological'', 2 \<mapsto> '' order chronological''))]"
  by (simp_all add: order_clause_def plus_space_one re_space_def starts_with_def)

lemma star_greedy_one:
  assumes "m st = [st1]" and "length (fst st1) < length (fst st)" and "m st1 = []"
  shows "star_greedy m (length (fst st)) st = [st1, st]"
proof -
  from assms(2) obtain k where k: "length (fst st) = Suc k" by (cases "length (fst st)") auto
  show ?thesis unfolding k using assms by (simp add: star_greedy_dead)
qed

lemma star_greedy_head:
  assumes "m st = st1 # rest" and "length (fst st1) < length (fst st)" and "m st1 = []"
  shows "\<exists>rest'. star_greedy m (length (fst st)) st = st1 # rest'"
proof -
  from assms(2) obtain k where k: "length (fst st) = Suc k" by (cases "length (fst st)") auto
  show ?thesis unfolding k using assms by (simp add: star_greedy_dead)
qed

lemma seq_head:
  "matches a st = x # rest \<Longrightarrow> matches b x = y # rest' \<Longrightarrow> \<exists>r. matches (Seq a b) st = y # r"
  by simp

lemma star_order_skip:
  "\<not> re_space c \<Longrightarrow> c \<noteq> CHR ''o'' \<Longrightarrow>
   matches (Star order_clause) (CHR '' '' # c # u, g) = [(CHR '' '' # c # u, g)]"
  by (rule star_dead) (rule order_clause_miss)

lemma star_limit_skip:
  "\<not> re_space c \<Longrightarrow> c \<noteq> CHR ''l'' \<Longrightarrow>
   matches (Star (limit_clause i j)) (CHR '' '' # c # u, g) = [(CHR '' '' # c # u, g)]"
  by (rule star_dead) (rule limit_clause_miss)

lemma star_order_hit:
  assumes "\<not> re_space c" and "c \<noteq> CHR ''o''"
  shows "matches (Star order_clause) ('' order alphabetical'' @ CHR '' '' # c # u, g) =
     [(CHR '' '' # c # u, g(3 \<mapsto> ''alphabetical'', 2 \<mapsto> '' order alphabetical'')),
      ('' order alphabetical'' @ CHR '' '' # c # u, g)]"
    and "matches (Star order_clause) ('' order chronological'' @ CHR '' '' # c # u, g) =
     [(CHR '' '' # c # u, g(3 \<mapsto> ''chronological'', 2 \<mapsto> '' order chronological'')),
      ('' order chronological'' @ CHR '' '' # c # u, g)]"
proof -
  show "matches (Star order_clause) ('' order alphabetical'' @ CHR '' '' # c # u, g) =
     [(CHR '' '' # c # u, g(3 \<mapsto> ''alphabetical'', 2 \<mapsto> '' order alphabetical'')),
      ('' order alphabetical'' @ CHR '' '' # c # u, g)]"
    using star_greedy_one [where m = "matches order_clause"
        and st = "('' order alphabetical'' @ CHR '' '' # c # u, g)",
        OF order_clause_hit(1) _ order_clause_miss [OF assms]]
    by simp
  show "matches (Star order_clause) ('' order chronological'' @ CHR '' '' # c # u, g) =
     [(CHR '' '' # c # u, g(3 \<mapsto> ''chronological'', 2 \<mapsto> '' order chronological'')),
      ('' order chronological'' @ CHR '' '' # c # u, g)]"
    using star_greedy_one [where m = "matches order_clause"
        and st = "('' order chronological'' @ CHR '' '' # c # u, g)",
        OF order_clause_hit(2) _ order_clause_miss [OF assms]]
    by simp
qed

lemma star_digit_all:
  "\<forall>c \<in> set N. re_digit c \<Longrightarrow> u = [] \<or> \<not> re_digit (hd u) \<Longrightarrow> length (N @ u) \<le> n \<Longrightarrow>
   \<exists>rest. star_greedy (matches (Cls Digit)) n (N @ u, g) = (u, g) # rest"
proof (induction N arbitrary: n)
  case Nil
  then have "matches (Cls Digit) (u, g) = []" by (cases u) auto
  then show ?case by (simp add: star_greedy_dead del: matches.simps)
next
  case (Cons c N)
  then obtain n' where n: "n = Suc n'" and le: "length (N @ u) \<le> n'" by (cases n) auto
  from Cons.prems have "\<forall>c \<in> set N. re_digit c" by simp
  from Cons.IH [OF this Cons.prems(2) le] obtain rest where
    "star_greedy (matches (Cls Digit)) n' (N @ u, g) = (u, g) # rest" by blast
  moreover from Cons.prems have "matches (Cls Digit) (c # N @ u, g) = [(N @ u, g)]" by simp
  ultimately show ?case by (simp add: n del: matches.simps)
qed

lemma plus_digit_hit:
  assumes "N \<noteq> []" and "\<forall>c \<in> set N. re_digit c" and "u = [] \<or> \<not> re_digit (hd u)"
  shows "\<exists>rest. matches (Plus (Cls Digit)) (N @ u, g) = (u, g) # rest"
proof -
  from assms obtain c N' where N: "N = c # N'" and c: "re_digit c"
    and N': "\<forall>c \<in> set N'. re_digit c"
    by (cases N) auto
  from star_digit_all [OF N' assms(3) le_refl] obtain rest where
    "star_greedy (matches (Cls Digit)) (length (N' @ u)) (N' @ u, g) = (u, g) # rest" by blast
  moreover from c have "matches (Cls Digit) (c # N' @ u, g) = [(N' @ u, g)]" by simp
  ultimately show ?thesis by (simp add: N Plus_def del: matches.simps(2))
qed

lemma limit_clause_hit:
  assumes "N \<noteq> []" and "\<forall>c \<in> set N. re_digit c" and "u = [] \<or> \<not> re_digit (hd u)"
  shows "\<exists>rest. matches (limit_clause i j) ('' limit '' @ N @ u, g) =
           (u, g(j \<mapsto> N, i \<mapsto> '' limit '' @ N)) # rest"
proof -
  from plus_digit_hit [OF assms] obtain rest where
    d: "matches (Plus (Cls Digit)) (N @ u, g) = (u, g) # rest" by blast
  from assms have "\<not> re_space (hd (N @ u))" by (cases N) (simp_all add: re_digit_not_space)
  then have s2: "matches (Plus (Cls Space)) (CHR '' '' # N @ u, g) = [(N @ u, g)]"
    by (intro plus_space_single) (use assms in \<open>simp_all add: re_space_def\<close>)
  have s1: "matches (Plus (Cls Space))
              (CHR '' '' # CHR ''l'' # CHR ''i'' # CHR ''m'' # CHR ''i'' # CHR ''t'' # CHR '' '' # N @ u, g)
            = [(CHR ''l'' # CHR ''i'' # CHR ''m'' # CHR ''i'' # CHR ''t'' # CHR '' '' # N @ u, g)]"
    by (simp add: plus_space_one re_space_def)
  have t: "take (7 + length N)
             (CHR '' '' # CHR ''l'' # CHR ''i'' # CHR ''m'' # CHR ''i'' # CHR ''t'' # CHR '' '' # N @ u)
           = CHR '' '' # CHR ''l'' # CHR ''i'' # CHR ''m'' # CHR ''i'' # CHR ''t'' # CHR '' '' # N"
    by (simp add: numeral_eq_Suc)
  show ?thesis
    by (simp add: limit_clause_def s1 s2 d starts_with_def t)
qed

subsection \<open>A limit clause before the order clause\<close>

lemma star_greedy_set:
  "x \<in> set (star_greedy m n st) \<Longrightarrow>
   x = st \<or> (\<exists>st' \<in> set (m st). x \<in> set (star_greedy m (n - 1) st'))"
  by (cases n) (auto split: if_splits)

lemma star_class_texts:
  "x \<in> set (star_greedy (matches (Cls K)) n (w, g)) \<Longrightarrow>
   \<exists>k. fst x = drop k w \<and> (\<forall>c \<in> set (take k w). cls_ok K c)"
proof (induction n arbitrary: w)
  case 0
  then have "fst x = drop 0 w \<and> (\<forall>c \<in> set (take 0 w). cls_ok K c)" by simp
  then show ?case by blast
next
  case (Suc n)
  from star_greedy_set [OF Suc.prems] show ?case
  proof
    assume "x = (w, g)"
    then have "fst x = drop 0 w \<and> (\<forall>c \<in> set (take 0 w). cls_ok K c)" by simp
    then show ?thesis by blast
  next
    assume "\<exists>st' \<in> set (matches (Cls K) (w, g)). x \<in> set (star_greedy (matches (Cls K)) (Suc n - 1) st')"
    then obtain c w' where w: "w = c # w'" and c: "cls_ok K c"
      and x: "x \<in> set (star_greedy (matches (Cls K)) n (w', g))"
      by (cases w) (auto split: if_splits)
    from Suc.IH [OF x] obtain k where "fst x = drop k w'" and "\<forall>c \<in> set (take k w'). cls_ok K c"
      by blast
    with c w have "fst x = drop (Suc k) w \<and> (\<forall>c \<in> set (take (Suc k) w). cls_ok K c)" by simp
    then show ?thesis by blast
  qed
qed

lemma plus_class_texts:
  assumes "x \<in> set (matches (Plus (Cls K)) (w, g))"
  shows "\<exists>k. fst x = drop k w \<and> (\<forall>c \<in> set (take k w). cls_ok K c)"
proof -
  from assms obtain c w' where w: "w = c # w'" and c: "cls_ok K c"
    and x: "x \<in> set (star_greedy (matches (Cls K)) (length w') (w', g))"
    by (cases w) (auto simp: Plus_def split: if_splits)
  from star_class_texts [OF x] obtain k where "fst x = drop k w'"
    and "\<forall>c \<in> set (take k w'). cls_ok K c" by blast
  with c w have "fst x = drop (Suc k) w \<and> (\<forall>c \<in> set (take (Suc k) w). cls_ok K c)" by simp
  then show ?thesis by blast
qed

lemma digit_texts:
  assumes x: "x \<in> set (matches (Plus (Cls Digit)) (N @ u, g))"
    and u: "u = [] \<or> \<not> re_digit (hd u)"
  shows "\<exists>k \<le> length N. fst x = drop k N @ u"
proof -
  from plus_class_texts [OF x] obtain k where k: "fst x = drop k (N @ u)"
    and d: "\<forall>c \<in> set (take k (N @ u)). cls_ok Digit c" by blast
  show ?thesis
  proof (cases "k \<le> length N")
    case True
    with k show ?thesis by auto
  next
    case False
    then have gt: "0 < k - length N" by simp
    have "u = []"
    proof (rule ccontr)
      assume ne: "u \<noteq> []"
      with gt have "hd u \<in> set (take (k - length N) u)" by (cases u; cases "k - length N") simp_all
      with d have "re_digit (hd u)" by simp
      with u ne show False by simp
    qed
    with k False have "fst x = drop (length N) N @ u" by simp
    then show ?thesis by blast
  qed
qed

lemma limit_clause_texts:
  assumes N: "N \<noteq> []" "\<forall>c \<in> set N. re_digit c" and u: "u = [] \<or> \<not> re_digit (hd u)"
    and x: "x \<in> set (matches (limit_clause i j) ('' limit '' @ N @ u, g))"
  shows "\<exists>k \<le> length N. fst x = drop k N @ u"
proof -
  from N have "\<not> re_space (hd (N @ u))" by (cases N) (simp_all add: re_digit_not_space)
  then have s2: "matches (Plus (Cls Space)) (CHR '' '' # N @ u, g) = [(N @ u, g)]"
    by (intro plus_space_single) (use N in \<open>simp_all add: re_space_def\<close>)
  have s1: "matches (Plus (Cls Space))
              (CHR '' '' # CHR ''l'' # CHR ''i'' # CHR ''m'' # CHR ''i'' # CHR ''t'' # CHR '' '' # N @ u, g)
            = [(CHR ''l'' # CHR ''i'' # CHR ''m'' # CHR ''i'' # CHR ''t'' # CHR '' '' # N @ u, g)]"
    by (simp add: plus_space_one re_space_def)
  from x obtain y where y: "y \<in> set (matches (Plus (Cls Digit)) (N @ u, g))" and "fst x = fst y"
    by (auto simp: limit_clause_def s1 s2 starts_with_def)
  with digit_texts [OF y u] show ?thesis by simp
qed

lemma pages_rest_miss:
  assumes "\<not> re_space c" and "c \<noteq> CHR ''o''" and "c \<noteq> CHR ''l''" and "c \<noteq> CHR ''a''"
  shows "matches (Seq (Star order_clause) (Seq (Star (limit_clause i j)) (seqs (as_clause n))))
           (CHR '' '' # c # u, g) = []"
  using assms
  by (simp add: star_order_skip star_limit_skip as_clause_miss
      del: matches.simps(5) seqs.simps)

lemma limit_then_order_dead:
  assumes N: "N \<noteq> []" "\<forall>c \<in> set N. re_digit c"
  shows "matches (Seq (Star order_clause) (Seq (Star (limit_clause i j)) (seqs (as_clause n))))
           ('' limit '' @ N @ CHR '' '' # CHR ''o'' # u, g) = []"
proof -
  let ?u = "CHR '' '' # CHR ''o'' # u"
  let ?st0 = "('' limit '' @ N @ ?u, g)"
  have nd: "?u = [] \<or> \<not> re_digit (hd ?u)" by (simp add: re_digit_def)
  have dead_text: "matches (limit_clause i j) (drop k N @ ?u, h) = []
                 \<and> matches (seqs (as_clause n)) (drop k N @ ?u, h) = []"
    if "k \<le> length N" for k h
  proof (cases "k < length N")
    case True
    then have "drop k N \<noteq> []" and "hd (drop k N) \<in> set N"
      by (simp_all add: hd_drop_conv_nth)
    with N have "drop k N @ ?u = [] \<or> \<not> re_space (hd (drop k N @ ?u))"
      by (simp add: re_digit_not_space)
    then show ?thesis by (simp only: limit_clause_dead as_clause_dead simp_thms)
  next
    case False
    with that have "drop k N = []" by simp
    then show ?thesis
      by (simp add: limit_clause_miss as_clause_miss re_space_def del: seqs.simps)
  qed
  have as0: "matches (seqs (as_clause n)) ?st0 = []"
    by (simp add: as_clause_miss re_space_def del: seqs.simps)
  have all_dead: "matches (seqs (as_clause n)) x = []"
    if x: "x \<in> set (matches (Star (limit_clause i j)) ?st0)" for x
  proof -
    from x have "x \<in> set (star_greedy (matches (limit_clause i j)) (length (fst ?st0)) ?st0)"
      by simp
    from star_greedy_set [OF this] show ?thesis
    proof
      assume "x = ?st0"
      with as0 show ?thesis by simp
    next
      assume "\<exists>st' \<in> set (matches (limit_clause i j) ?st0).
                x \<in> set (star_greedy (matches (limit_clause i j)) (length (fst ?st0) - 1) st')"
      then obtain st' where st': "st' \<in> set (matches (limit_clause i j) ?st0)"
        and xs: "x \<in> set (star_greedy (matches (limit_clause i j)) (length (fst ?st0) - 1) st')"
        by blast
      from limit_clause_texts [OF N nd st'] obtain k where k: "k \<le> length N"
        and t: "fst st' = drop k N @ ?u" by blast
      from dead_text [OF k, of "snd st'"] t
      have d: "matches (limit_clause i j) st' = []" "matches (seqs (as_clause n)) st' = []"
        by (cases st'; simp)+
      from xs d(1) have "x = st'" by (simp add: star_greedy_dead)
      with d(2) show ?thesis by simp
    qed
  qed
  have "matches (Seq (Star (limit_clause i j)) (seqs (as_clause n))) ?st0 = []"
    using all_dead by (simp only: matches.simps(3) concat_map_Nil)
  moreover have "matches (Star order_clause) ?st0 = [?st0]"
    by (simp add: star_order_skip re_space_def del: matches.simps(5))
  ultimately show ?thesis
    by (simp del: matches.simps(5) seqs.simps)
qed

lemma clause_miss_as:
  "matches order_clause ('' as '' @ V, h) = []"
  "matches (limit_clause i j) ('' as '' @ V, h) = []"
  by (simp_all add: order_clause_miss limit_clause_miss re_space_def)

lemma star_order_hit_gen:
  assumes "\<And>h. matches order_clause (w, h) = []"
  shows "matches (Star order_clause) ('' order alphabetical'' @ w, g) =
     [(w, g(3 \<mapsto> ''alphabetical'', 2 \<mapsto> '' order alphabetical'')),
      ('' order alphabetical'' @ w, g)]"
    and "matches (Star order_clause) ('' order chronological'' @ w, g) =
     [(w, g(3 \<mapsto> ''chronological'', 2 \<mapsto> '' order chronological'')),
      ('' order chronological'' @ w, g)]"
proof -
  have l: "length (fst (w, h)) < length (fst (p # q @ w, g))" for h :: groups and p :: char and q
    by simp
  show "matches (Star order_clause) ('' order alphabetical'' @ w, g) =
     [(w, g(3 \<mapsto> ''alphabetical'', 2 \<mapsto> '' order alphabetical'')),
      ('' order alphabetical'' @ w, g)]"
    unfolding matches.simps(5)
    by (rule star_greedy_one [OF order_clause_hit(1) _ assms]) simp
  show "matches (Star order_clause) ('' order chronological'' @ w, g) =
     [(w, g(3 \<mapsto> ''chronological'', 2 \<mapsto> '' order chronological'')),
      ('' order chronological'' @ w, g)]"
    unfolding matches.simps(5)
    by (rule star_greedy_one [OF order_clause_hit(2) _ assms]) simp
qed

lemma tail_as:
  assumes V: "V \<noteq> []" "\<forall>c \<in> set V. re_word c"
  shows "\<exists>rest. matches (Seq (Star (limit_clause i j)) (seqs (as_clause n))) ('' as '' @ V, h)
               = ([], h(n \<mapsto> V)) # rest"
proof -
  from as_clause_hit [OF V, of n h] obtain rest where
    a: "matches (seqs (as_clause n)) ('' as '' @ V, h) = ([], h(n \<mapsto> V)) # rest" by blast
  have s: "matches (Star (limit_clause i j)) ('' as '' @ V, h) = [('' as '' @ V, h)]"
    by (rule star_dead) (rule clause_miss_as)
  from seq_head [OF s a] show ?thesis .
qed

lemma pages_rest_as:
  assumes V: "V \<noteq> []" "\<forall>c \<in> set V. re_word c"
  shows "\<exists>rest. matches (Seq (Star order_clause) (Seq (Star (limit_clause 4 5)) (seqs (as_clause 6))))
                  ('' as '' @ V, g)
                = ([], g(6 \<mapsto> V)) # rest"
proof -
  from tail_as [OF V, of 4 5 6 g] obtain rest where
    t: "matches (Seq (Star (limit_clause 4 5)) (seqs (as_clause 6))) ('' as '' @ V, g)
        = ([], g(6 \<mapsto> V)) # rest" by blast
  have s: "matches (Star order_clause) ('' as '' @ V, g) = [('' as '' @ V, g)]"
    by (rule star_dead) (rule clause_miss_as)
  from seq_head [OF s t] show ?thesis .
qed

lemma pages_rest_order_as:
  assumes V: "V \<noteq> []" "\<forall>c \<in> set V. re_word c"
  shows "\<exists>rest. matches (Seq (Star order_clause) (Seq (Star (limit_clause 4 5)) (seqs (as_clause 6))))
                  ('' order alphabetical'' @ '' as '' @ V, g)
                = ([], g(3 \<mapsto> ''alphabetical'', 2 \<mapsto> '' order alphabetical'', 6 \<mapsto> V)) # rest"
    and "\<exists>rest. matches (Seq (Star order_clause) (Seq (Star (limit_clause 4 5)) (seqs (as_clause 6))))
                  ('' order chronological'' @ '' as '' @ V, g)
                = ([], g(3 \<mapsto> ''chronological'', 2 \<mapsto> '' order chronological'', 6 \<mapsto> V)) # rest"
proof -
  from tail_as [OF V, of 4 5 6 "g(3 \<mapsto> ''alphabetical'', 2 \<mapsto> '' order alphabetical'')"]
  obtain rest where
    t: "matches (Seq (Star (limit_clause 4 5)) (seqs (as_clause 6)))
          ('' as '' @ V, g(3 \<mapsto> ''alphabetical'', 2 \<mapsto> '' order alphabetical''))
        = ([], g(3 \<mapsto> ''alphabetical'', 2 \<mapsto> '' order alphabetical'', 6 \<mapsto> V)) # rest"
    by blast
  from seq_head [OF star_order_hit_gen(1) [of "'' as '' @ V", OF clause_miss_as(1)] t]
  show "\<exists>rest. matches (Seq (Star order_clause) (Seq (Star (limit_clause 4 5)) (seqs (as_clause 6))))
                  ('' order alphabetical'' @ '' as '' @ V, g)
                = ([], g(3 \<mapsto> ''alphabetical'', 2 \<mapsto> '' order alphabetical'', 6 \<mapsto> V)) # rest" .
  from tail_as [OF V, of 4 5 6 "g(3 \<mapsto> ''chronological'', 2 \<mapsto> '' order chronological'')"]
  obtain rest where
    t: "matches (Seq (Star (limit_clause 4 5)) (seqs (as_clause 6)))
          ('' as '' @ V, g(3 \<mapsto> ''chronological'', 2 \<mapsto> '' order chronological''))
        = ([], g(3 \<mapsto> ''chronological'', 2 \<mapsto> '' order chronological'', 6 \<mapsto> V)) # rest"
    by blast
  from seq_head [OF star_order_hit_gen(2) [of "'' as '' @ V", OF clause_miss_as(1)] t]
  show "\<exists>rest. matches (Seq (Star order_clause) (Seq (Star (limit_clause 4 5)) (seqs (as_clause 6))))
                  ('' order chronological'' @ '' as '' @ V, g)
                = ([], g(3 \<mapsto> ''chronological'', 2 \<mapsto> '' order chronological'', 6 \<mapsto> V)) # rest" .
qed

lemma lazy_search_step:
  "c \<noteq> CHR 0x0A \<Longrightarrow> matches R (c # s, g(i \<mapsto> pre)) = [] \<Longrightarrow>
   lazy_search i R pre (c # s) g = lazy_search i R (pre @ [c]) s g"
  by simp

lemma limit_first_search:
  assumes T: "\<forall>c \<in> set T. \<not> re_space c"
    and N: "N \<noteq> []" "\<forall>c \<in> set N. re_digit c"
    and U: "U = CHR '' '' # CHR ''o'' # u"
    and hit: "matches (Seq (Star order_clause) (Seq (Star (limit_clause 4 5)) (seqs (as_clause 6))))
                (U, [1 \<mapsto> T @ '' limit '' @ N]) = st # rest"
  shows "\<exists>rest'. matches pages_with_tags_re (T @ '' limit '' @ N @ U, Map.empty) = st # rest'"
proof -
  define R where "R = Seq (Star order_clause) (Seq (Star (limit_clause 4 5)) (seqs (as_clause 6)))"
  have dead: "matches R (w, g) = []" if "w = [] \<or> \<not> re_space (hd w)" for w g
    unfolding R_def using that by (rule pages_rest_dead)
  from N obtain d N' where Nd: "N = d # N'" and d: "re_digit d" by (cases N) auto
  have Nsp: "\<forall>c \<in> set N. \<not> re_space c" using N by (auto dest: re_digit_not_space)
  have lsp: "\<forall>c \<in> set ''limit''. \<not> re_space c" by (simp add: re_space_def)
  have "lazy_search 1 R [] (T @ '' limit '' @ N @ U) Map.empty
        = lazy_search 1 R ([] @ T) ('' limit '' @ N @ U) Map.empty"
    by (rule lazy_skip [where R = R]) (erule dead, rule T)
  also have "\<dots> = lazy_search 1 R T (CHR '' '' # ''limit'' @ CHR '' '' # N @ U) Map.empty"
    by simp
  also have "\<dots> = lazy_search 1 R (T @ '' '') (''limit'' @ CHR '' '' # N @ U) Map.empty"
  proof (rule lazy_search_step)
    have "matches R ('' limit '' @ N @ CHR '' '' # CHR ''o'' # u, [1 \<mapsto> T]) = []"
      unfolding R_def by (rule limit_then_order_dead [OF N])
    then show "matches R (CHR '' '' # ''limit'' @ CHR '' '' # N @ U, Map.empty(1 \<mapsto> T)) = []"
      by (simp add: U)
  qed simp
  also have "\<dots> = lazy_search 1 R ((T @ '' '') @ ''limit'') (CHR '' '' # N @ U) Map.empty"
    by (rule lazy_skip [where R = R]) (erule dead, rule lsp)
  also have "\<dots> = lazy_search 1 R (((T @ '' '') @ ''limit'') @ '' '') (N @ U) Map.empty"
  proof (rule lazy_search_step)
    have "\<not> re_space d" "d \<noteq> CHR ''o''" "d \<noteq> CHR ''l''" "d \<noteq> CHR ''a''"
      using d by (auto simp: re_digit_def re_space_def)
    then have "matches R (CHR '' '' # d # N' @ U, g) = []" for g
      unfolding R_def by (rule pages_rest_miss)
    then show "matches R (CHR '' '' # N @ U, Map.empty(1 \<mapsto> (T @ '' '') @ ''limit'')) = []"
      by (simp add: Nd)
  qed simp
  also have "\<dots> = lazy_search 1 R ((((T @ '' '') @ ''limit'') @ '' '') @ N) U Map.empty"
    by (rule lazy_skip [where R = R]) (erule dead, rule Nsp)
  finally have chain: "lazy_search 1 R [] (T @ '' limit '' @ N @ U) Map.empty
        = lazy_search 1 R (T @ '' limit '' @ N) U Map.empty"
    by simp
  from hit have "matches R (U, Map.empty(1 \<mapsto> T @ '' limit '' @ N)) = st # rest"
    by (simp add: R_def del: matches.simps seqs.simps)
  from lazy_search_hit [OF this] chain
  have "\<exists>rest'. lazy_search 1 R [] (T @ '' limit '' @ N @ U) Map.empty = st # rest'"
    by simp
  then show ?thesis
    unfolding pages_with_tags_re_split lazy_capture R_def .
qed

lemma parsed_tags_ends_with_digit:
  assumes "N \<noteq> []" and "\<forall>c \<in> set N. re_digit c"
  shows "parsed_tags ext (T @ '' limit '' @ N) = Inr (DynamicTags (T @ '' limit '' @ N) [])"
proof -
  from assms have "last (T @ '' limit '' @ N) = last N" by simp
  moreover from assms have "re_digit (last N)" by simp
  then have "last N \<noteq> CHR 0x22" "last N \<noteq> CHR 0x27" by (auto simp: re_digit_def)
  ultimately have "\<not> quoted (T @ '' limit '' @ N)" by (auto simp: quoted_def)
  then show ?thesis by (simp add: parsed_tags_def DynamicTags_init_def)
qed

lemma limit_before_order_search:
  assumes T: "\<forall>c \<in> set T. \<not> re_space c"
    and N: "N \<noteq> []" "\<forall>c \<in> set N. re_digit c"
    and V: "V \<noteq> []" "\<forall>c \<in> set V. re_word c"
  shows "re_search pages_with_tags_re (T @ '' limit '' @ N @ '' order alphabetical'' @ '' as '' @ V)
         = Some [1 \<mapsto> T @ '' limit '' @ N, 3 \<mapsto> ''alphabetical'',
                 2 \<mapsto> '' order alphabetical'', 6 \<mapsto> V]"
    and "re_search pages_with_tags_re (T @ '' limit '' @ N @ '' order chronological'' @ '' as '' @ V)
         = Some [1 \<mapsto> T @ '' limit '' @ N, 3 \<mapsto> ''chronological'',
                 2 \<mapsto> '' order chronological'', 6 \<mapsto> V]"
proof -
  from pages_rest_order_as(1) [OF V, of "[1 \<mapsto> T @ '' limit '' @ N]"] obtain rest where
    "matches (Seq (Star order_clause) (Seq (Star (limit_clause 4 5)) (seqs (as_clause 6))))
       ('' order alphabetical'' @ '' as '' @ V, [1 \<mapsto> T @ '' limit '' @ N])
     = ([], [1 \<mapsto> T @ '' limit '' @ N, 3 \<mapsto> ''alphabetical'',
             2 \<mapsto> '' order alphabetical'', 6 \<mapsto> V]) # rest" by blast
  from limit_first_search [OF T N _ this, of "''rder alphabetical'' @ '' as '' @ V"]
  obtain rest' where
    "matches pages_with_tags_re
       (T @ '' limit '' @ N @ '' order alphabetical'' @ '' as '' @ V, Map.empty)
     = ([], [1 \<mapsto> T @ '' limit '' @ N, 3 \<mapsto> ''alphabetical'',
             2 \<mapsto> '' order alphabetical'', 6 \<mapsto> V]) # rest'" by auto
  from re_search_hit [OF this]
  show "re_search pages_with_tags_re (T @ '' limit '' @ N @ '' order alphabetical'' @ '' as '' @ V)
         = Some [1 \<mapsto> T @ '' limit '' @ N, 3 \<mapsto> ''alphabetical'',
                 2 \<mapsto> '' order alphabetical'', 6 \<mapsto> V]" by simp
  from pages_rest_order_as(2) [OF V, of "[1 \<mapsto> T @ '' limit '' @ N]"] obtain rest where
    "matches (Seq (Star order_clause) (Seq (Star (limit_clause 4 5)) (seqs (as_clause 6))))
       ('' order chronological'' @ '' as '' @ V, [1 \<mapsto> T @ '' limit '' @ N])
     = ([], [1 \<mapsto> T @ '' limit '' @ N, 3 \<mapsto> ''chronological'',
             2 \<mapsto> '' order chronological'', 6 \<mapsto> V]) # rest" by blast
  from limit_first_search [OF T N _ this, of "''rder chronological'' @ '' as '' @ V"]
  obtain rest' where
    "matches pages_with_tags_re
       (T @ '' limit '' @ N @ '' order chronological'' @ '' as '' @ V, Map.empty)
     = ([], [1 \<mapsto> T @ '' limit '' @ N, 3 \<mapsto> ''chronological'',
             2 \<mapsto> '' order chronological'', 6 \<mapsto> V]) # rest'" by auto
  from re_search_hit [OF this]
  show "re_search pages_with_tags_re (T @ '' limit '' @ N @ '' order chronological'' @ '' as '' @ V)
         = Some [1 \<mapsto> T @ '' limit '' @ N, 3 \<mapsto> ''chronological'',
                 2 \<mapsto> '' order chronological'', 6 \<mapsto> V]" by simp
qed

text \<open>
  C10, as amended. \<open>pages_with_tags\<close> with the limit clause before the order clause, in
  the form \<^verbatim>\<open>T limit N order O as V\<close> with single blanks between the words, where
  \<open>T\<close> is a non-empty tag text without white space, \<open>N\<close> a non-empty run of digits,
  \<open>O\<close> is \<^verbatim>\<open>alphabetical\<close> or \<^verbatim>\<open>chronological\<close> and \<open>V\<close> a non-empty run of word
  characters: no syntax error is raised. The lazy capture takes the misplaced limit
  clause only: the text \<^verbatim>\<open>T limit N\<close> names a dynamic binder, the limit is unset, and
  the order clause is parsed as an order clause, so the ordering is \<open>O\<close>.
\<close>

theorem limit_before_order:
  assumes "T \<noteq> []" and "\<forall>c \<in> set T. \<not> py_isspace c"
    and "N \<noteq> []" and "\<forall>c \<in> set N. re_digit c"
    and "V \<noteq> []" and "\<forall>c \<in> set V. re_word c"
  shows "parse_pages_with_tags ext
           (''pages_with_tags '' @ T @ '' limit '' @ N @ '' order alphabetical as '' @ V)
         = Inr (DynamicTags (T @ '' limit '' @ N) [], Some ''alphabetical'', None, V)
       \<and> parse_pages_with_tags ext
           (''pages_with_tags '' @ T @ '' limit '' @ N @ '' order chronological as '' @ V)
         = Inr (DynamicTags (T @ '' limit '' @ N) [], Some ''chronological'', None, V)"
proof -
  from assms(2) have T: "\<forall>c \<in> set T. \<not> re_space c" by (auto dest: re_space_py_isspace)
  have name: "''pages_with_tags'' \<noteq> []" "\<forall>c \<in> set ''pages_with_tags''. \<not> py_isspace c"
    by (simp_all add: py_isspace_def)
  from assms(1,2) have hd: "\<not> py_isspace (hd (T @ w))" "T @ w \<noteq> []" for w by simp_all
  have e: "extract_tag_content (''pages_with_tags'' @ CHR '' '' # T @ w)
             = Inr (''pages_with_tags'', T @ w)" for w
    by (rule extract_args [OF name hd(2) hd(1)])
  note s = limit_before_order_search [OF T assms(3-6)]
  note p = parsed_tags_ends_with_digit [OF assms(3,4), of ext T]
  have "parse_pages_with_tags ext
           (''pages_with_tags'' @ CHR '' '' # T @ '' limit '' @ N @ '' order alphabetical'' @ '' as '' @ V)
         = Inr (DynamicTags (T @ '' limit '' @ N) [], Some ''alphabetical'', None, V)"
    by (simp only: parse_pages_with_tags_def e sum.case prod.case s)
       (simp add: p [simplified] limit_and_int_def)
  moreover have "parse_pages_with_tags ext
           (''pages_with_tags'' @ CHR '' '' # T @ '' limit '' @ N @ '' order chronological'' @ '' as '' @ V)
         = Inr (DynamicTags (T @ '' limit '' @ N) [], Some ''chronological'', None, V)"
    by (simp only: parse_pages_with_tags_def e sum.case prod.case s)
       (simp add: p [simplified] limit_and_int_def)
  ultimately show ?thesis by simp
qed

text \<open>\<^verbatim>\<open>pages_with_tags x limit 2 order alphabetical as r\<close>\<close>

theorem limit_before_order_witness:
  "parse_pages_with_tags example_externals ''pages_with_tags x limit 2 order alphabetical as r''
     = Inr (DynamicTags ''x limit 2'' [], Some ''alphabetical'', None, ''r'')
   \<and> parse_pages_with_tags example_externals ''pages_with_tags x limit 2 order chronological as r''
     = Inr (DynamicTags ''x limit 2'' [], Some ''chronological'', None, ''r'')"
proof -
  have "''x'' \<noteq> []" "\<forall>c \<in> set ''x''. \<not> py_isspace c" "''2'' \<noteq> []" "\<forall>c \<in> set ''2''. re_digit c"
    "''r'' \<noteq> []" "\<forall>c \<in> set ''r''. re_word c"
    by (simp_all add: py_isspace_def re_digit_def re_word_def)
  from limit_before_order [OF this, of example_externals] show ?thesis by simp
qed

text \<open>
  The claim as it stands says that the ordering stays unset and that the whole text
  before \<^verbatim>\<open>as\<close> is the tag argument. For \<^verbatim>\<open>x limit 2 order alphabetical as r\<close> the
  parser gives the ordering \<open>alphabetical\<close> and the tag argument \<^verbatim>\<open>x limit 2\<close>, and the
  node it compiles orders alphabetically.
\<close>

theorem limit_before_order_counterexample:
  "parse_pages_with_tags example_externals ''pages_with_tags x limit 2 order alphabetical as r''
     \<noteq> Inr (DynamicTags ''x limit 2 order alphabetical'' [], None, None, ''r'')
   \<and> parse_pages_with_tags example_externals ''pages_with_tags x limit 2 order alphabetical as r''
     = Inr (DynamicTags ''x limit 2'' [], Some ''alphabetical'', None, ''r'')
   \<and> pages_with_tags example_externals ''pages_with_tags x limit 2 order alphabetical as r''
     = Inr \<lparr>pn_parsed_tags = DynamicTags ''x limit 2'' [], pn_ordering = ''alphabetical'',
            pn_limit = None, pn_var_name = ''r''\<rparr>"
proof -
  have "parse_pages_with_tags example_externals ''pages_with_tags x limit 2 order alphabetical as r''
     = Inr (DynamicTags ''x limit 2'' [], Some ''alphabetical'', None, ''r'')"
    by (simp add: parse_pages_with_tags_def lexer_defs regex_defs binder_defs)
  then show ?thesis
    by (simp add: pages_with_tags_def TaggedPagesNode_init_def)
qed

subsection \<open>Clauses in their order\<close>

lemma order_clause_miss_limit: "matches order_clause ('' limit '' @ w, h) = []"
  by (simp add: order_clause_miss re_space_def)

lemma star_limit_hit:
  assumes N: "N \<noteq> []" "\<forall>c \<in> set N. re_digit c"
  shows "\<exists>rest. matches (Star (limit_clause i j)) ('' limit '' @ N @ '' as '' @ V, h)
               = ('' as '' @ V, h(j \<mapsto> N, i \<mapsto> '' limit '' @ N)) # rest"
proof -
  have nd: "'' as '' @ V = [] \<or> \<not> re_digit (hd ('' as '' @ V))" by (simp add: re_digit_def)
  from limit_clause_hit [OF N nd, of i j h] obtain rest where
    l: "matches (limit_clause i j) ('' limit '' @ N @ '' as '' @ V, h)
        = ('' as '' @ V, h(j \<mapsto> N, i \<mapsto> '' limit '' @ N)) # rest" by blast
  show ?thesis
    unfolding matches.simps(5)
    by (rule star_greedy_head [OF l _ clause_miss_as(2)]) simp
qed

lemma tail_limit_as:
  assumes N: "N \<noteq> []" "\<forall>c \<in> set N. re_digit c" and V: "V \<noteq> []" "\<forall>c \<in> set V. re_word c"
  shows "\<exists>rest. matches (Seq (Star (limit_clause i j)) (seqs (as_clause n)))
                  ('' limit '' @ N @ '' as '' @ V, h)
               = ([], h(j \<mapsto> N, i \<mapsto> '' limit '' @ N, n \<mapsto> V)) # rest"
proof -
  from star_limit_hit [OF N, of i j V h] obtain rest where
    s: "matches (Star (limit_clause i j)) ('' limit '' @ N @ '' as '' @ V, h)
        = ('' as '' @ V, h(j \<mapsto> N, i \<mapsto> '' limit '' @ N)) # rest" by blast
  from as_clause_hit [OF V, of n "h(j \<mapsto> N, i \<mapsto> '' limit '' @ N)"] obtain rest' where
    a: "matches (seqs (as_clause n)) ('' as '' @ V, h(j \<mapsto> N, i \<mapsto> '' limit '' @ N))
        = ([], h(j \<mapsto> N, i \<mapsto> '' limit '' @ N, n \<mapsto> V)) # rest'" by blast
  from seq_head [OF s a] show ?thesis .
qed

lemma pages_rest_limit_as:
  assumes N: "N \<noteq> []" "\<forall>c \<in> set N. re_digit c" and V: "V \<noteq> []" "\<forall>c \<in> set V. re_word c"
  shows "\<exists>rest. matches (Seq (Star order_clause) (Seq (Star (limit_clause 4 5)) (seqs (as_clause 6))))
                  ('' limit '' @ N @ '' as '' @ V, g)
                = ([], g(5 \<mapsto> N, 4 \<mapsto> '' limit '' @ N, 6 \<mapsto> V)) # rest"
proof -
  from tail_limit_as [OF N V, of 4 5 6 g] obtain rest where
    t: "matches (Seq (Star (limit_clause 4 5)) (seqs (as_clause 6)))
          ('' limit '' @ N @ '' as '' @ V, g)
        = ([], g(5 \<mapsto> N, 4 \<mapsto> '' limit '' @ N, 6 \<mapsto> V)) # rest" by blast
  have s: "matches (Star order_clause) ('' limit '' @ N @ '' as '' @ V, g)
           = [('' limit '' @ N @ '' as '' @ V, g)]"
    by (rule star_dead) (rule order_clause_miss_limit)
  from seq_head [OF s t] show ?thesis .
qed

lemma pages_rest_order_limit_as:
  assumes N: "N \<noteq> []" "\<forall>c \<in> set N. re_digit c" and V: "V \<noteq> []" "\<forall>c \<in> set V. re_word c"
  shows "\<exists>rest. matches (Seq (Star order_clause) (Seq (Star (limit_clause 4 5)) (seqs (as_clause 6))))
                  ('' order alphabetical'' @ '' limit '' @ N @ '' as '' @ V, g)
                = ([], g(3 \<mapsto> ''alphabetical'', 2 \<mapsto> '' order alphabetical'',
                         5 \<mapsto> N, 4 \<mapsto> '' limit '' @ N, 6 \<mapsto> V)) # rest"
    and "\<exists>rest. matches (Seq (Star order_clause) (Seq (Star (limit_clause 4 5)) (seqs (as_clause 6))))
                  ('' order chronological'' @ '' limit '' @ N @ '' as '' @ V, g)
                = ([], g(3 \<mapsto> ''chronological'', 2 \<mapsto> '' order chronological'',
                         5 \<mapsto> N, 4 \<mapsto> '' limit '' @ N, 6 \<mapsto> V)) # rest"
proof -
  from tail_limit_as [OF N V, of 4 5 6 "g(3 \<mapsto> ''alphabetical'', 2 \<mapsto> '' order alphabetical'')"]
  obtain rest where
    t: "matches (Seq (Star (limit_clause 4 5)) (seqs (as_clause 6)))
          ('' limit '' @ N @ '' as '' @ V, g(3 \<mapsto> ''alphabetical'', 2 \<mapsto> '' order alphabetical''))
        = ([], g(3 \<mapsto> ''alphabetical'', 2 \<mapsto> '' order alphabetical'',
                 5 \<mapsto> N, 4 \<mapsto> '' limit '' @ N, 6 \<mapsto> V)) # rest"
    by blast
  from seq_head [OF star_order_hit_gen(1) [of "'' limit '' @ N @ '' as '' @ V",
        OF order_clause_miss_limit] t]
  show "\<exists>rest. matches (Seq (Star order_clause) (Seq (Star (limit_clause 4 5)) (seqs (as_clause 6))))
                  ('' order alphabetical'' @ '' limit '' @ N @ '' as '' @ V, g)
                = ([], g(3 \<mapsto> ''alphabetical'', 2 \<mapsto> '' order alphabetical'',
                         5 \<mapsto> N, 4 \<mapsto> '' limit '' @ N, 6 \<mapsto> V)) # rest" .
  from tail_limit_as [OF N V, of 4 5 6 "g(3 \<mapsto> ''chronological'', 2 \<mapsto> '' order chronological'')"]
  obtain rest where
    t: "matches (Seq (Star (limit_clause 4 5)) (seqs (as_clause 6)))
          ('' limit '' @ N @ '' as '' @ V, g(3 \<mapsto> ''chronological'', 2 \<mapsto> '' order chronological''))
        = ([], g(3 \<mapsto> ''chronological'', 2 \<mapsto> '' order chronological'',
                 5 \<mapsto> N, 4 \<mapsto> '' limit '' @ N, 6 \<mapsto> V)) # rest"
    by blast
  from seq_head [OF star_order_hit_gen(2) [of "'' limit '' @ N @ '' as '' @ V",
        OF order_clause_miss_limit] t]
  show "\<exists>rest. matches (Seq (Star order_clause) (Seq (Star (limit_clause 4 5)) (seqs (as_clause 6))))
                  ('' order chronological'' @ '' limit '' @ N @ '' as '' @ V, g)
                = ([], g(3 \<mapsto> ''chronological'', 2 \<mapsto> '' order chronological'',
                         5 \<mapsto> N, 4 \<mapsto> '' limit '' @ N, 6 \<mapsto> V)) # rest" .
qed

text \<open>After a tag text without white space the rest of the pattern is tried at its end first.\<close>

lemma pages_search_after_tags:
  assumes T: "\<forall>c \<in> set T. \<not> re_space c"
    and hit: "matches (Seq (Star order_clause) (Seq (Star (limit_clause 4 5)) (seqs (as_clause 6))))
                (U, [1 \<mapsto> T]) = st # rest"
  shows "re_search pages_with_tags_re (T @ U) = Some (snd st)"
proof -
  define R where "R = Seq (Star order_clause) (Seq (Star (limit_clause 4 5)) (seqs (as_clause 6)))"
  have dead: "matches R (w, g) = []" if "w = [] \<or> \<not> re_space (hd w)" for w g
    unfolding R_def using that by (rule pages_rest_dead)
  have "lazy_search 1 R [] (T @ U) Map.empty = lazy_search 1 R ([] @ T) U Map.empty"
    by (rule lazy_skip [where R = R]) (erule dead, rule T)
  moreover from hit have "matches R (U, Map.empty(1 \<mapsto> [] @ T)) = st # rest"
    by (simp add: R_def del: matches.simps seqs.simps)
  from lazy_search_hit [OF this] obtain rest' where
    "lazy_search 1 R ([] @ T) U Map.empty = st # rest'" by blast
  ultimately have "matches pages_with_tags_re (T @ U, Map.empty) = st # rest'"
    unfolding pages_with_tags_re_split lazy_capture R_def by simp
  then show ?thesis by (rule re_search_hit)
qed

lemma parse_pages_from_search:
  assumes T: "T \<noteq> []" "\<forall>c \<in> set T. \<not> py_isspace c"
    and s: "re_search pages_with_tags_re (T @ U) = Some g"
    and g: "g 1 = Some T" "g 6 = Some V"
  shows "parse_pages_with_tags ext (''pages_with_tags'' @ CHR '' '' # T @ U) =
         (case parsed_tags ext T of
            Inl e \<Rightarrow> Inl e
          | Inr pt \<Rightarrow> Inr (pt, g 3, limit_and_int (g 5), V))"
proof -
  have name: "''pages_with_tags'' \<noteq> []" "\<forall>c \<in> set ''pages_with_tags''. \<not> py_isspace c"
    by (simp_all add: py_isspace_def)
  from T have hd: "T @ U \<noteq> []" "\<not> py_isspace (hd (T @ U))" by simp_all
  have e: "extract_tag_content (''pages_with_tags'' @ CHR '' '' # T @ U)
             = Inr (''pages_with_tags'', T @ U)"
    by (rule extract_args [OF name hd])
  show ?thesis
    by (simp only: parse_pages_with_tags_def e sum.case prod.case s option.case g)
qed

lemma pages_with_tags_forms:
  assumes T: "T \<noteq> []" "\<forall>c \<in> set T. \<not> py_isspace c"
    and V: "V \<noteq> []" "\<forall>c \<in> set V. re_word c"
    and N: "N \<noteq> []" "\<forall>c \<in> set N. re_digit c"
    and pt: "parsed_tags ext T = Inr pt"
  shows "parse_pages_with_tags ext (''pages_with_tags'' @ CHR '' '' # T @ '' as '' @ V)
           = Inr (pt, None, None, V)"
    and "parse_pages_with_tags ext
           (''pages_with_tags'' @ CHR '' '' # T @ '' order chronological'' @ '' as '' @ V)
           = Inr (pt, Some ''chronological'', None, V)"
    and "parse_pages_with_tags ext
           (''pages_with_tags'' @ CHR '' '' # T @ '' order alphabetical'' @ '' as '' @ V)
           = Inr (pt, Some ''alphabetical'', None, V)"
    and "parse_pages_with_tags ext
           (''pages_with_tags'' @ CHR '' '' # T @ '' limit '' @ N @ '' as '' @ V)
           = Inr (pt, None, Some (int_of_digits N), V)"
    and "parse_pages_with_tags ext
           (''pages_with_tags'' @ CHR '' '' # T @ '' order chronological'' @ '' limit '' @ N @ '' as '' @ V)
           = Inr (pt, Some ''chronological'', Some (int_of_digits N), V)"
    and "parse_pages_with_tags ext
           (''pages_with_tags'' @ CHR '' '' # T @ '' order alphabetical'' @ '' limit '' @ N @ '' as '' @ V)
           = Inr (pt, Some ''alphabetical'', Some (int_of_digits N), V)"
proof -
  from T(2) have Ts: "\<forall>c \<in> set T. \<not> re_space c" by (auto dest: re_space_py_isspace)
  note fin = parse_pages_from_search [OF T pages_search_after_tags [OF Ts]]
  {
    from pages_rest_as [OF V, of "[1 \<mapsto> T]"] obtain rest where
      h: "matches (Seq (Star order_clause) (Seq (Star (limit_clause 4 5)) (seqs (as_clause 6))))
            ('' as '' @ V, [1 \<mapsto> T]) = ([], [1 \<mapsto> T, 6 \<mapsto> V]) # rest" by blast
    show "parse_pages_with_tags ext (''pages_with_tags'' @ CHR '' '' # T @ '' as '' @ V)
           = Inr (pt, None, None, V)"
      by (subst fin [OF h, where V = V]) (simp_all add: pt limit_and_int_def)
  }
  {
    from pages_rest_order_as(2) [OF V, of "[1 \<mapsto> T]"] obtain rest where
      h: "matches (Seq (Star order_clause) (Seq (Star (limit_clause 4 5)) (seqs (as_clause 6))))
            ('' order chronological'' @ '' as '' @ V, [1 \<mapsto> T])
          = ([], [1 \<mapsto> T, 3 \<mapsto> ''chronological'', 2 \<mapsto> '' order chronological'', 6 \<mapsto> V]) # rest"
      by blast
    show "parse_pages_with_tags ext
           (''pages_with_tags'' @ CHR '' '' # T @ '' order chronological'' @ '' as '' @ V)
           = Inr (pt, Some ''chronological'', None, V)"
      by (subst fin [OF h, where V = V]) (simp_all add: pt limit_and_int_def)
  }
  {
    from pages_rest_order_as(1) [OF V, of "[1 \<mapsto> T]"] obtain rest where
      h: "matches (Seq (Star order_clause) (Seq (Star (limit_clause 4 5)) (seqs (as_clause 6))))
            ('' order alphabetical'' @ '' as '' @ V, [1 \<mapsto> T])
          = ([], [1 \<mapsto> T, 3 \<mapsto> ''alphabetical'', 2 \<mapsto> '' order alphabetical'', 6 \<mapsto> V]) # rest"
      by blast
    show "parse_pages_with_tags ext
           (''pages_with_tags'' @ CHR '' '' # T @ '' order alphabetical'' @ '' as '' @ V)
           = Inr (pt, Some ''alphabetical'', None, V)"
      by (subst fin [OF h, where V = V]) (simp_all add: pt limit_and_int_def)
  }
  {
    from pages_rest_limit_as [OF N V, of "[1 \<mapsto> T]"] obtain rest where
      h: "matches (Seq (Star order_clause) (Seq (Star (limit_clause 4 5)) (seqs (as_clause 6))))
            ('' limit '' @ N @ '' as '' @ V, [1 \<mapsto> T])
          = ([], [1 \<mapsto> T, 5 \<mapsto> N, 4 \<mapsto> '' limit '' @ N, 6 \<mapsto> V]) # rest"
      by blast
    show "parse_pages_with_tags ext
           (''pages_with_tags'' @ CHR '' '' # T @ '' limit '' @ N @ '' as '' @ V)
           = Inr (pt, None, Some (int_of_digits N), V)"
      by (subst fin [OF h, where V = V]) (simp_all add: pt limit_and_int_def N(1))
  }
  {
    from pages_rest_order_limit_as(2) [OF N V, of "[1 \<mapsto> T]"] obtain rest where
      h: "matches (Seq (Star order_clause) (Seq (Star (limit_clause 4 5)) (seqs (as_clause 6))))
            ('' order chronological'' @ '' limit '' @ N @ '' as '' @ V, [1 \<mapsto> T])
          = ([], [1 \<mapsto> T, 3 \<mapsto> ''chronological'', 2 \<mapsto> '' order chronological'',
                  5 \<mapsto> N, 4 \<mapsto> '' limit '' @ N, 6 \<mapsto> V]) # rest"
      by blast
    show "parse_pages_with_tags ext
           (''pages_with_tags'' @ CHR '' '' # T @ '' order chronological'' @ '' limit '' @ N @ '' as '' @ V)
           = Inr (pt, Some ''chronological'', Some (int_of_digits N), V)"
      by (subst fin [OF h, where V = V]) (simp_all add: pt limit_and_int_def N(1))
  }
  {
    from pages_rest_order_limit_as(1) [OF N V, of "[1 \<mapsto> T]"] obtain rest where
      h: "matches (Seq (Star order_clause) (Seq (Star (limit_clause 4 5)) (seqs (as_clause 6))))
            ('' order alphabetical'' @ '' limit '' @ N @ '' as '' @ V, [1 \<mapsto> T])
          = ([], [1 \<mapsto> T, 3 \<mapsto> ''alphabetical'', 2 \<mapsto> '' order alphabetical'',
                  5 \<mapsto> N, 4 \<mapsto> '' limit '' @ N, 6 \<mapsto> V]) # rest"
      by blast
    show "parse_pages_with_tags ext
           (''pages_with_tags'' @ CHR '' '' # T @ '' order alphabetical'' @ '' limit '' @ N @ '' as '' @ V)
           = Inr (pt, Some ''alphabetical'', Some (int_of_digits N), V)"
      by (subst fin [OF h, where V = V]) (simp_all add: pt limit_and_int_def N(1))
  }
qed

subsection \<open>Ordering\<close>

lemma get_by_model_sort_key:
  "get_by_model (sort_key f qs) tags = sort_key f (get_by_model qs tags)"
  by (simp add: get_by_model_def filter_sort)

lemma sorted_slice_to: "sorted (map f xs) \<Longrightarrow> sorted (map f (slice_to xs lim))"
  by (cases lim) (simp_all add: slice_to_def sorted_wrt_take flip: take_map)

lemma render_chronological:
  assumes "pn_ordering node = ''chronological''"
  shows "TaggedPagesNode_render ext db node ctx =
     Inr ([], node\<lparr>pn_parsed_tags := tags_bind ext (pn_parsed_tags node) ctx\<rparr>,
          ctx(pn_var_name node \<mapsto> VPages (map pt_page (slice_to
            (sort_key (\<lambda>pt. - publication_date (pt_page pt))
               (get_by_model (pagetaggings_from_site ext db)
                  (tags_of (tags_bind ext (pn_parsed_tags node) ctx))))
            (pn_limit node)))))"
  using assms
  by (simp add: TaggedPagesNode_render_def Let_def order_by_publication_date_desc_def
      get_by_model_sort_key)

lemma render_alphabetical:
  assumes "pn_ordering node = ''alphabetical''"
  shows "TaggedPagesNode_render ext db node ctx =
     Inr ([], node\<lparr>pn_parsed_tags := tags_bind ext (pn_parsed_tags node) ctx\<rparr>,
          ctx(pn_var_name node \<mapsto> VPages (map pt_page (slice_to
            (sort_key (\<lambda>pt. title (pt_page pt))
               (get_by_model (pagetaggings_from_site ext db)
                  (tags_of (tags_bind ext (pn_parsed_tags node) ctx))))
            (pn_limit node)))))"
  using assms
  by (simp add: TaggedPagesNode_render_def Let_def order_by_title_def get_by_model_sort_key)

lemma sorted_chronological:
  "sorted_wrt (\<lambda>p q. publication_date q \<le> publication_date p)
     (map pt_page (slice_to (sort_key (\<lambda>pt. - publication_date (pt_page pt)) qs) lim))"
proof -
  have "sorted (map (\<lambda>pt. - publication_date (pt_page pt))
                 (slice_to (sort_key (\<lambda>pt. - publication_date (pt_page pt)) qs) lim))"
    by (rule sorted_slice_to) simp
  then show ?thesis by (simp add: sorted_map sorted_wrt_map)
qed

lemma sorted_alphabetical:
  "sorted (map title (map pt_page (slice_to (sort_key (\<lambda>pt. title (pt_page pt)) qs) lim)))"
proof -
  have "sorted (map (\<lambda>pt. title (pt_page pt))
                 (slice_to (sort_key (\<lambda>pt. title (pt_page pt)) qs) lim))"
    by (rule sorted_slice_to) simp
  then show ?thesis by (simp add: comp_def)
qed

text \<open>
  C2. \<open>pages_with_tags\<close>, for every tags binder, limit, result variable, database and
  render context: the node built with no ordering is the node built with the ordering
  \<open>chronological\<close>, so both render alike; it writes the pages of the associations of
  the site that match the bound tags, sorted by publication date, latest first, and cut
  at the limit. The node built with the ordering \<open>alphabetical\<close> writes the same pages
  sorted by title, cut at the limit.

  The parser hands the constructor no ordering when the directive has no order clause:
  for a tag argument without white space, the directive without an order clause
  compiles to the same node as the directive with \<^verbatim>\<open>order chronological\<close>, with and
  without a limit clause, and \<^verbatim>\<open>order alphabetical\<close> compiles to the alphabetical node.
\<close>

theorem default_ordering_chronological:
  "TaggedPagesNode_init pt None lim v = TaggedPagesNode_init pt (Some ''chronological'') lim v
   \<and> TaggedPagesNode_render ext db (TaggedPagesNode_init pt None lim v) ctx
       = TaggedPagesNode_render ext db (TaggedPagesNode_init pt (Some ''chronological'') lim v) ctx
   \<and> TaggedPagesNode_render ext db (TaggedPagesNode_init pt None lim v) ctx
       = Inr ([], TaggedPagesNode_init (tags_bind ext pt ctx) None lim v,
              ctx(v \<mapsto> VPages (map pt_page (slice_to
                (sort_key (\<lambda>a. - publication_date (pt_page a))
                   (get_by_model (pagetaggings_from_site ext db) (tags_of (tags_bind ext pt ctx))))
                lim))))
   \<and> sorted_wrt (\<lambda>p q. publication_date q \<le> publication_date p)
        (map pt_page (slice_to
           (sort_key (\<lambda>a. - publication_date (pt_page a))
              (get_by_model (pagetaggings_from_site ext db) (tags_of (tags_bind ext pt ctx))))
           lim))
   \<and> TaggedPagesNode_render ext db (TaggedPagesNode_init pt (Some ''alphabetical'') lim v) ctx
       = Inr ([], TaggedPagesNode_init (tags_bind ext pt ctx) (Some ''alphabetical'') lim v,
              ctx(v \<mapsto> VPages (map pt_page (slice_to
                (sort_key (\<lambda>a. title (pt_page a))
                   (get_by_model (pagetaggings_from_site ext db) (tags_of (tags_bind ext pt ctx))))
                lim))))
   \<and> sorted (map title (map pt_page (slice_to
        (sort_key (\<lambda>a. title (pt_page a))
           (get_by_model (pagetaggings_from_site ext db) (tags_of (tags_bind ext pt ctx))))
        lim)))
   \<and> (T \<noteq> [] \<and> (\<forall>c \<in> set T. \<not> py_isspace c) \<and> V \<noteq> [] \<and> (\<forall>c \<in> set V. re_word c)
        \<and> N \<noteq> [] \<and> (\<forall>c \<in> set N. re_digit c) \<longrightarrow>
       (\<exists>b. parsed_tags ext T = Inr b
          \<and> pages_with_tags ext (''pages_with_tags '' @ T @ '' as '' @ V)
              = Inr (TaggedPagesNode_init b None None V)
          \<and> pages_with_tags ext (''pages_with_tags '' @ T @ '' order chronological as '' @ V)
              = Inr (TaggedPagesNode_init b None None V)
          \<and> pages_with_tags ext (''pages_with_tags '' @ T @ '' limit '' @ N @ '' as '' @ V)
              = Inr (TaggedPagesNode_init b None (Some (int_of_digits N)) V)
          \<and> pages_with_tags ext
               (''pages_with_tags '' @ T @ '' order chronological limit '' @ N @ '' as '' @ V)
              = Inr (TaggedPagesNode_init b None (Some (int_of_digits N)) V)
          \<and> pages_with_tags ext (''pages_with_tags '' @ T @ '' order alphabetical as '' @ V)
              = Inr (TaggedPagesNode_init b (Some ''alphabetical'') None V)
          \<and> pages_with_tags ext
               (''pages_with_tags '' @ T @ '' order alphabetical limit '' @ N @ '' as '' @ V)
              = Inr (TaggedPagesNode_init b (Some ''alphabetical'') (Some (int_of_digits N)) V)))"
proof -
  have i: "TaggedPagesNode_init pt None lim v
      = TaggedPagesNode_init pt (Some ''chronological'') lim v"
    by (simp add: TaggedPagesNode_init_def)
  have c: "pn_ordering (TaggedPagesNode_init pt None lim v) = ''chronological''"
    by (simp add: TaggedPagesNode_init_def)
  have a: "pn_ordering (TaggedPagesNode_init pt (Some ''alphabetical'') lim v) = ''alphabetical''"
    by (simp add: TaggedPagesNode_init_def)
  have rc: "TaggedPagesNode_render ext db (TaggedPagesNode_init pt None lim v) ctx
       = Inr ([], TaggedPagesNode_init (tags_bind ext pt ctx) None lim v,
              ctx(v \<mapsto> VPages (map pt_page (slice_to
                (sort_key (\<lambda>a. - publication_date (pt_page a))
                   (get_by_model (pagetaggings_from_site ext db) (tags_of (tags_bind ext pt ctx))))
                lim))))"
    by (subst render_chronological [OF c]) (simp add: TaggedPagesNode_init_def)
  have ra: "TaggedPagesNode_render ext db (TaggedPagesNode_init pt (Some ''alphabetical'') lim v) ctx
       = Inr ([], TaggedPagesNode_init (tags_bind ext pt ctx) (Some ''alphabetical'') lim v,
              ctx(v \<mapsto> VPages (map pt_page (slice_to
                (sort_key (\<lambda>a. title (pt_page a))
                   (get_by_model (pagetaggings_from_site ext db) (tags_of (tags_bind ext pt ctx))))
                lim))))"
    by (subst render_alphabetical [OF a]) (simp add: TaggedPagesNode_init_def)
  have p: "\<exists>b. parsed_tags ext T = Inr b
          \<and> pages_with_tags ext (''pages_with_tags '' @ T @ '' as '' @ V)
              = Inr (TaggedPagesNode_init b None None V)
          \<and> pages_with_tags ext (''pages_with_tags '' @ T @ '' order chronological as '' @ V)
              = Inr (TaggedPagesNode_init b None None V)
          \<and> pages_with_tags ext (''pages_with_tags '' @ T @ '' limit '' @ N @ '' as '' @ V)
              = Inr (TaggedPagesNode_init b None (Some (int_of_digits N)) V)
          \<and> pages_with_tags ext
               (''pages_with_tags '' @ T @ '' order chronological limit '' @ N @ '' as '' @ V)
              = Inr (TaggedPagesNode_init b None (Some (int_of_digits N)) V)
          \<and> pages_with_tags ext (''pages_with_tags '' @ T @ '' order alphabetical as '' @ V)
              = Inr (TaggedPagesNode_init b (Some ''alphabetical'') None V)
          \<and> pages_with_tags ext
               (''pages_with_tags '' @ T @ '' order alphabetical limit '' @ N @ '' as '' @ V)
              = Inr (TaggedPagesNode_init b (Some ''alphabetical'') (Some (int_of_digits N)) V)"
    if h: "T \<noteq> [] \<and> (\<forall>c \<in> set T. \<not> py_isspace c) \<and> V \<noteq> [] \<and> (\<forall>c \<in> set V. re_word c)
        \<and> N \<noteq> [] \<and> (\<forall>c \<in> set N. re_digit c)"
  proof -
    from h have T: "T \<noteq> []" "\<forall>c \<in> set T. \<not> py_isspace c"
      and V: "V \<noteq> []" "\<forall>c \<in> set V. re_word c"
      and N: "N \<noteq> []" "\<forall>c \<in> set N. re_digit c" by simp_all
    from T(1) obtain b where b: "parsed_tags ext T = Inr b"
      by (cases "quoted T") (simp_all add: parsed_tags_def)
    note f = pages_with_tags_forms [OF T V N b, simplified]
    show ?thesis
      by (rule exI [of _ b])
         (simp add: b f pages_with_tags_def TaggedPagesNode_init_def)
  qed
  show ?thesis
    by (intro conjI impI, rule i, simp only: i, rule rc, rule sorted_chronological, rule ra,
        rule sorted_alphabetical, erule p)
qed

text \<open>
  On the concrete site the pages \<open>a\<close>, \<open>b\<close> and \<open>c\<close> carry the tag \<open>x\<close>, published at
  20, 10 and 30 and titled Zebra, Apple and Mango. \<^verbatim>\<open>pages_with_tags "x" as r\<close> and
  \<^verbatim>\<open>pages_with_tags "x" order chronological as r\<close> compile to one node, which writes
  \<open>c\<close>, \<open>a\<close>, \<open>b\<close>; with \<^verbatim>\<open>order alphabetical\<close> the node writes \<open>b\<close>, \<open>c\<close>, \<open>a\<close>.
\<close>

theorem default_ordering_chronological_witness:
  "pages_with_tags example_externals ''pages_with_tags \"x\" as r''
     = Inr \<lparr>pn_parsed_tags = StaticTags [''x''], pn_ordering = ''chronological'',
            pn_limit = None, pn_var_name = ''r''\<rparr>
   \<and> pages_with_tags example_externals ''pages_with_tags \"x\" order chronological as r''
     = Inr \<lparr>pn_parsed_tags = StaticTags [''x''], pn_ordering = ''chronological'',
            pn_limit = None, pn_var_name = ''r''\<rparr>
   \<and> TaggedPagesNode_render example_externals example_db
        \<lparr>pn_parsed_tags = StaticTags [''x''], pn_ordering = ''chronological'',
         pn_limit = None, pn_var_name = ''r''\<rparr> Map.empty
     = Inr ([], \<lparr>pn_parsed_tags = StaticTags [''x''], pn_ordering = ''chronological'',
                 pn_limit = None, pn_var_name = ''r''\<rparr>,
            [''r'' \<mapsto> VPages [page_c, page_a, page_b]])
   \<and> pages_with_tags example_externals ''pages_with_tags \"x\" order alphabetical as r''
     = Inr \<lparr>pn_parsed_tags = StaticTags [''x''], pn_ordering = ''alphabetical'',
            pn_limit = None, pn_var_name = ''r''\<rparr>
   \<and> TaggedPagesNode_render example_externals example_db
        \<lparr>pn_parsed_tags = StaticTags [''x''], pn_ordering = ''alphabetical'',
         pn_limit = None, pn_var_name = ''r''\<rparr> Map.empty
     = Inr ([], \<lparr>pn_parsed_tags = StaticTags [''x''], pn_ordering = ''alphabetical'',
                 pn_limit = None, pn_var_name = ''r''\<rparr>,
            [''r'' \<mapsto> VPages [page_b, page_c, page_a]])"
proof -
  note t = default_ordering_chronological
    [where ext = example_externals and db = example_db and pt = "StaticTags [''x'']"
       and lim = None and v = "''r''" and ctx = Map.empty
       and T = "''\"x\"''" and V = "''r''" and N = "''2''"]
  have h: "''\"x\"'' \<noteq> [] \<and> (\<forall>c \<in> set ''\"x\"''. \<not> py_isspace c)
      \<and> ''r'' \<noteq> [] \<and> (\<forall>c \<in> set ''r''. re_word c)
      \<and> ''2'' \<noteq> [] \<and> (\<forall>c \<in> set ''2''. re_digit c)"
    by (simp add: py_isspace_def re_word_def re_digit_def)
  have b: "parsed_tags example_externals ''\"x\"'' = Inr (StaticTags [''x''])"
    by (simp add: binder_defs example_defs)
  note p = t [THEN conjunct2, THEN conjunct2, THEN conjunct2, THEN conjunct2, THEN conjunct2,
    THEN conjunct2, THEN mp, OF h]
  from p b have parse:
    "pages_with_tags example_externals ''pages_with_tags \"x\" as r''
       = Inr \<lparr>pn_parsed_tags = StaticTags [''x''], pn_ordering = ''chronological'',
              pn_limit = None, pn_var_name = ''r''\<rparr>"
    "pages_with_tags example_externals ''pages_with_tags \"x\" order chronological as r''
       = Inr \<lparr>pn_parsed_tags = StaticTags [''x''], pn_ordering = ''chronological'',
              pn_limit = None, pn_var_name = ''r''\<rparr>"
    "pages_with_tags example_externals ''pages_with_tags \"x\" order alphabetical as r''
       = Inr \<lparr>pn_parsed_tags = StaticTags [''x''], pn_ordering = ''alphabetical'',
              pn_limit = None, pn_var_name = ''r''\<rparr>"
    by (auto simp: TaggedPagesNode_init_def)
  from t [THEN conjunct2, THEN conjunct2, THEN conjunct1]
  have rc: "TaggedPagesNode_render example_externals example_db
        \<lparr>pn_parsed_tags = StaticTags [''x''], pn_ordering = ''chronological'',
         pn_limit = None, pn_var_name = ''r''\<rparr> Map.empty
     = Inr ([], \<lparr>pn_parsed_tags = StaticTags [''x''], pn_ordering = ''chronological'',
                 pn_limit = None, pn_var_name = ''r''\<rparr>,
            [''r'' \<mapsto> VPages [page_c, page_a, page_b]])"
    by (simp add: TaggedPagesNode_init_def query_defs example_defs)
  from t [THEN conjunct2, THEN conjunct2, THEN conjunct2, THEN conjunct2, THEN conjunct1]
  have ra: "TaggedPagesNode_render example_externals example_db
        \<lparr>pn_parsed_tags = StaticTags [''x''], pn_ordering = ''alphabetical'',
         pn_limit = None, pn_var_name = ''r''\<rparr> Map.empty
     = Inr ([], \<lparr>pn_parsed_tags = StaticTags [''x''], pn_ordering = ''alphabetical'',
                 pn_limit = None, pn_var_name = ''r''\<rparr>,
            [''r'' \<mapsto> VPages [page_b, page_c, page_a]])"
    by (simp add: TaggedPagesNode_init_def query_defs example_defs)
  from parse rc ra show ?thesis by (simp only: simp_thms)
qed

end
